theory Spec2Isabelle
  imports Main
begin

section \<open>Strings: the Python string operations the agent uses\<close>

text \<open>
  Python strings are modelled as \<^typ>\<open>string\<close>.  The three operations below are
  the ones \<^verbatim>\<open>agent/utils.py\<close> and \<^verbatim>\<open>agent/graph.py\<close> rely on: the decimal rendering
  of a positive index inside an f-string, the substring test \<^verbatim>\<open>pat in s\<close>, and
  \<^verbatim>\<open>s.replace(pat, rep)\<close>, which rewrites the non-overlapping occurrences of
  \<^verbatim>\<open>pat\<close> from left to right.
\<close>

definition digit_char :: "nat \<Rightarrow> char" where
  "digit_char d = ''0123456789'' ! (d mod 10)"

function str_nat :: "nat \<Rightarrow> string" where
  "str_nat n = (if n < 10 then [digit_char n] else str_nat (n div 10) @ [digit_char n])"
  by pat_completeness auto
termination
  by (relation "measure (\<lambda>n. n)") auto

definition starts_with :: "string \<Rightarrow> string \<Rightarrow> bool" where
  "starts_with pat s = (take (length pat) s = pat)"

fun contains_str :: "string \<Rightarrow> string \<Rightarrow> bool" where
  "contains_str pat [] = (pat = [])"
| "contains_str pat (c # cs) = (starts_with pat (c # cs) \<or> contains_str pat cs)"

text \<open>
  \<^verbatim>\<open>str.replace\<close> with a non-empty pattern scans the text once; where the pattern
  starts it emits the replacement and jumps over the pattern.  With the empty pattern
  Python puts the replacement before every character and at the end.
\<close>

function replace_scan :: "string \<Rightarrow> string \<Rightarrow> string \<Rightarrow> string" where
  "replace_scan pat rep [] = []"
| "replace_scan pat rep (c # cs) =
     (if pat \<noteq> [] \<and> starts_with pat (c # cs)
      then rep @ replace_scan pat rep (drop (length pat) (c # cs))
      else c # replace_scan pat rep cs)"
  by pat_completeness auto
termination
  by (relation "measure (\<lambda>(pat, rep, s). length s)") auto

definition str_replace :: "string \<Rightarrow> string \<Rightarrow> string \<Rightarrow> string" where
  "str_replace s pat rep =
     (if pat = [] then rep @ concat (map (\<lambda>c. c # rep) s) else replace_scan pat rep s)"

section \<open>Citation helpers (agent/utils.py)\<close>

text \<open>
  A source is a Python dict; a key may be missing, which \<^verbatim>\<open>source.get(key, default)\<close>
  answers with the default.  The record keeps each key as an option.
\<close>

record source =
  src_url :: "string option"
  src_title :: "string option"
  src_snippet :: "string option"

definition dict_get :: "string option \<Rightarrow> string \<Rightarrow> string" where
  "dict_get v dflt = (case v of None \<Rightarrow> dflt | Some x \<Rightarrow> x)"

definition marker_pattern :: "nat \<Rightarrow> string" where
  "marker_pattern i = ''['' @ str_nat i @ '']''"

definition link_replacement :: "nat \<Rightarrow> source \<Rightarrow> string" where
  "link_replacement i s =
     ''['' @ dict_get (src_title s) (''Source '' @ str_nat i) @ '']('' @
     dict_get (src_url s) ''#'' @ '')''"

text \<open>The body of the loop \<^verbatim>\<open>for i, source in enumerate(sources, 1)\<close>.\<close>

definition citation_step :: "string \<Rightarrow> nat \<times> source \<Rightarrow> string" where
  "citation_step modified_text p =
     (case p of (i, s) \<Rightarrow>
        if contains_str (marker_pattern i) modified_text
        then str_replace modified_text (marker_pattern i) (link_replacement i s)
        else modified_text)"

definition insert_citation_markers :: "string \<Rightarrow> source list \<Rightarrow> string" where
  "insert_citation_markers text sources =
     (if sources = [] then text
      else foldl citation_step text (List.enumerate 1 sources))"

section \<open>Citation post-processing as the spec words it\<close>

text \<open>
  The spec describes citation post-processing as one pass: every inline marker
  \<^verbatim>\<open>[i]\<close> that has a source becomes that source's link, and everything else stays.
  \<open>substitute_all\<close> is that reading, written from the spec's words to be compared with
  \<^verbatim>\<open>insert_citation_markers\<close>: it scans the text once, and where an entry of the table
  starts it emits the entry's replacement and jumps over the pattern.  What it emits is
  never scanned again.
\<close>

fun find_marker :: "(string \<times> string) list \<Rightarrow> string \<Rightarrow> (string \<times> string) option" where
  "find_marker [] s = None"
| "find_marker ((pat, rep) # ms) s =
     (if pat \<noteq> [] \<and> starts_with pat s then Some (pat, rep) else find_marker ms s)"

lemma find_marker_Some:
  "find_marker ms s = Some (pat, rep) \<Longrightarrow> (pat, rep) \<in> set ms \<and> pat \<noteq> [] \<and> starts_with pat s"
  by (induction ms) (auto split: if_splits)

function substitute_all :: "(string \<times> string) list \<Rightarrow> string \<Rightarrow> string" where
  "substitute_all ms [] = []"
| "substitute_all ms (c # cs) =
     (case find_marker ms (c # cs) of
        None \<Rightarrow> c # substitute_all ms cs
      | Some (pat, rep) \<Rightarrow> rep @ substitute_all ms (drop (length pat) (c # cs)))"
  by pat_completeness auto
termination
proof (relation "measure (\<lambda>(ms, s). length s)")
  show "wf (measure (\<lambda>(ms, s). length s))" by simp
next
  fix ms :: "(string \<times> string) list" and c :: char and cs :: string
  show "((ms, cs), (ms, c # cs)) \<in> measure (\<lambda>(ms, s). length s)" by simp
next
  fix ms :: "(string \<times> string) list" and c :: char and cs x2 x y
  assume "find_marker ms (c # cs) = Some x2" "(x, y) = x2"
  then have "x \<noteq> []" using find_marker_Some [of ms "c # cs" x y] by simp
  then show "((ms, drop (length x) (c # cs)), (ms, c # cs)) \<in> measure (\<lambda>(ms, s). length s)"
    by (cases x) simp_all
qed

text \<open>The table of the markers and links of a source list, in source order.\<close>

definition citation_table :: "source list \<Rightarrow> (string \<times> string) list" where
  "citation_table sources =
     map (\<lambda>(i, s). (marker_pattern i, link_replacement i s)) (List.enumerate 1 sources)"

text \<open>No link holds the marker of a later source.\<close>

definition no_cascade :: "source list \<Rightarrow> bool" where
  "no_cascade sources =
     sorted_wrt (\<lambda>(pat, rep) (pat', rep'). \<not> contains_str pat' rep) (citation_table sources)"

text \<open>One round of the loop of \<^verbatim>\<open>insert_citation_markers\<close>, on a table entry.\<close>

definition table_step :: "string \<Rightarrow> string \<times> string \<Rightarrow> string" where
  "table_step t m =
     (case m of (pat, rep) \<Rightarrow> if contains_str pat t then str_replace t pat rep else t)"

text \<open>
  The shape of the citation table that the comparison rests on: every pattern and every
  replacement starts with the same character, which occurs nowhere else in a pattern,
  and no replacement ends in a character of a pattern.
\<close>

definition patterns_start :: "char \<Rightarrow> (string \<times> string) list \<Rightarrow> bool" where
  "patterns_start b ms = (\<forall>(pat, rep) \<in> set ms. pat \<noteq> [] \<and> hd pat = b)"

definition replacements_start :: "char \<Rightarrow> (string \<times> string) list \<Rightarrow> bool" where
  "replacements_start b ms = (\<forall>(pat, rep) \<in> set ms. rep \<noteq> [] \<and> hd rep = b)"

definition marker_table :: "char \<Rightarrow> (string \<times> string) list \<Rightarrow> bool" where
  "marker_table b ms \<longleftrightarrow>
     (\<forall>pat rep. (pat, rep) \<in> set ms \<longrightarrow>
        pat \<noteq> [] \<and> hd pat = b \<and> b \<notin> set (tl pat) \<and> rep \<noteq> [] \<and> hd rep = b) \<and>
     (\<forall>pat rep pat' rep'. (pat, rep) \<in> set ms \<longrightarrow> (pat', rep') \<in> set ms \<longrightarrow>
        last rep \<notin> set pat')"

section \<open>The outside world\<close>

text \<open>
  The language model, the search provider, the clock and the prompt templates of
  \<^verbatim>\<open>agent/prompts.py\<close> are not part of the program.  They are parameters of the model:
  every capability answers either with a value or with the message of the exception the
  call raised (\<open>Inl\<close>).  A prompt template is a function of the values that
  \<^verbatim>\<open>.format\<close> substitutes into it.  The sampling temperature and the retry count of
  a model call do not show in the answer's type and are left out.
\<close>

record organic_result =
  res_title :: "string option"
  res_link :: "string option"
  res_snippet :: "string option"

text \<open>The request parameters \<^verbatim>\<open>params\<close> of \<^verbatim>\<open>search_web\<close> (the API key is ambient).\<close>

record search_params =
  sp_engine :: string
  sp_q :: string
  sp_num :: int

text \<open>
  The decoded response \<^verbatim>\<open>data\<close>: its key \<^verbatim>\<open>organic_results\<close> is absent (\<open>None\<close>) or
  holds the ranked results.
\<close>

type_synonym search_data = "organic_result list option"

text \<open>The Pydantic schema \<^verbatim>\<open>Reflection\<close> the evaluator's structured output is parsed into.\<close>

record verdict =
  v_is_sufficient :: bool
  v_knowledge_gap :: string
  v_follow_up_queries :: "string list"

record environment =
  env_search :: "search_params \<Rightarrow> string + search_data"
  env_invoke_text :: "string \<Rightarrow> string \<Rightarrow> string + string"
  env_invoke_queries :: "string \<Rightarrow> string \<Rightarrow> string + string list"
  env_invoke_reflection :: "string \<Rightarrow> string \<Rightarrow> string + verdict"
  env_current_date :: string
  query_writer_instructions :: "string \<Rightarrow> string \<Rightarrow> int \<Rightarrow> string"
  web_searcher_instructions :: "string \<Rightarrow> string \<Rightarrow> string"
  reflection_instructions :: "string \<Rightarrow> string \<Rightarrow> string \<Rightarrow> string"
  answer_instructions :: "string \<Rightarrow> string \<Rightarrow> string \<Rightarrow> string"

text \<open>The value \<^verbatim>\<open>Configuration.from_runnable_config(config)\<close> returns.\<close>

record configuration =
  query_generator_model :: string
  reflection_model :: string
  answer_model :: string
  search_model :: string
  number_of_initial_queries :: int
  cfg_max_research_loops :: int
  search_results_per_query :: int

datatype run_error = CapabilityFailure string | IndexError

section \<open>The search call (search\_web)\<close>

record search_hit =
  hit_title :: string
  hit_url :: string
  hit_snippet :: string

text \<open>The slice \<^verbatim>\<open>xs[:n]\<close>; a negative \<^verbatim>\<open>n\<close> counts from the end.\<close>

definition py_slice_to :: "int \<Rightarrow> 'a list \<Rightarrow> 'a list" where
  "py_slice_to n xs =
     (if 0 \<le> n then take (nat n) xs else take (length xs - nat (- n)) xs)"

definition build_params :: "string \<Rightarrow> int \<Rightarrow> search_params" where
  "build_params query num_results =
     \<lparr>sp_engine = ''google'', sp_q = query, sp_num = min num_results 10\<rparr>"

definition extract_hit :: "organic_result \<Rightarrow> search_hit" where
  "extract_hit result =
     \<lparr>hit_title = dict_get (res_title result) [],
      hit_url = dict_get (res_link result) [],
      hit_snippet = dict_get (res_snippet result) []\<rparr>"

text \<open>
  \<^verbatim>\<open>search_web\<close> returns the result list; the second component is what it prints.
  Any exception of the request is caught by the \<^verbatim>\<open>except\<close> clause, printed, and
  answered with the empty list.
\<close>

definition search_web ::
  "(search_params \<Rightarrow> string + search_data) \<Rightarrow> string \<Rightarrow> int \<Rightarrow> search_hit list \<times> string list" where
  "search_web api query num_results =
     (case api (build_params query num_results) of
        Inl e \<Rightarrow> ([], [''Search API error: '' @ e])
      | Inr data \<Rightarrow>
          ((case data of
              None \<Rightarrow> []
            | Some organic_results \<Rightarrow> map extract_hit (py_slice_to num_results organic_results)),
           []))"

section \<open>Graph state\<close>

text \<open>
  An entry of \<^verbatim>\<open>state["sources_gathered"]\<close> is a source dict or a list of them;
  \<^verbatim>\<open>finalize_answer\<close> tells them apart with \<^verbatim>\<open>isinstance(sources, list)\<close>.
\<close>

datatype gathered = One source | Many "source list"

text \<open>
  The state of the graph: the keys of \<^verbatim>\<open>OverallState\<close> and, as \<open>all_follow_up_queries\<close>,
  the key \<^verbatim>\<open>follow_up_queries\<close> that \<^verbatim>\<open>reflection\<close> writes.  The other keys
  \<^verbatim>\<open>reflection\<close> writes are plain values that \<^verbatim>\<open>evaluate_research\<close> reads right after
  they were written, so the state need not keep them.
\<close>

record overall_state =
  messages :: "string list"
  search_query :: "string list"
  web_research_result :: "string list"
  sources_gathered :: "gathered list"
  initial_search_query_count :: "int option"
  max_research_loops :: "int option"
  research_loop_count :: "int option"
  reasoning_model :: "string option"
  all_follow_up_queries :: "string list"

text \<open>The state a \<^verbatim>\<open>Send("web_research", ...)\<close> carries.\<close>

record web_search_state =
  ws_search_query :: string
  ws_id :: int

text \<open>The dict \<^verbatim>\<open>web_research\<close> returns.\<close>

record research_update =
  upd_sources_gathered :: "source list"
  upd_search_query :: "string list"
  upd_web_research_result :: "string list"

text \<open>
  The keys of \<^verbatim>\<open>ReflectionState\<close>: the dict \<^verbatim>\<open>reflection\<close> returns, and the state
  \<^verbatim>\<open>evaluate_research\<close> is handed.
\<close>

record reflection_state =
  is_sufficient :: bool
  knowledge_gap :: string
  follow_up_queries :: "string list"
  rs_research_loop_count :: int
  number_of_ran_queries :: int

text \<open>The dict \<^verbatim>\<open>finalize_answer\<close> returns.\<close>

record final_update =
  fin_messages :: "string list"
  fin_sources_gathered :: "source list"

text \<open>
  Modelled from the spec: the state schema \<^verbatim>\<open>agent/state.py\<close>, which tells the graph
  runtime how a node's returned dict is folded into the state, is not among the sources.
  The spec describes the evidence store as append-only sequences and the round counter
  as a plain value, and \<^verbatim>\<open>web_research\<close> itself returns one-element lists under the keys
  it shares with the state.  So a list-valued key of a returned dict is appended to the
  state's list, and a scalar key replaces the state's value.  This holds for every node
  alike: the queries \<^verbatim>\<open>generate_query\<close> returns are appended to \<^verbatim>\<open>search_query\<close>, and
  the follow-up queries \<^verbatim>\<open>reflection\<close> returns are appended to those of the rounds
  before.
\<close>

definition merge_queries :: "overall_state \<Rightarrow> string list \<Rightarrow> overall_state" where
  "merge_queries st qs = st\<lparr>search_query := search_query st @ qs\<rparr>"

definition merge_research :: "overall_state \<Rightarrow> research_update \<Rightarrow> overall_state" where
  "merge_research st u =
     st\<lparr>sources_gathered := sources_gathered st @ map One (upd_sources_gathered u),
        search_query := search_query st @ upd_search_query u,
        web_research_result := web_research_result st @ upd_web_research_result u\<rparr>"

definition merge_reflection :: "overall_state \<Rightarrow> reflection_state \<Rightarrow> overall_state" where
  "merge_reflection st rs =
     st\<lparr>research_loop_count := Some (rs_research_loop_count rs),
        all_follow_up_queries := all_follow_up_queries st @ follow_up_queries rs\<rparr>"

text \<open>
  What the edge function \<^verbatim>\<open>evaluate_research\<close> is handed after \<^verbatim>\<open>reflection\<close>: it is
  annotated \<^verbatim>\<open>state: ReflectionState\<close>, so it sees the keys of that schema as the state
  has them once the returned dict is folded in.  The plain values are those just
  returned; \<^verbatim>\<open>follow_up_queries\<close> is the accumulated list.  The key
  \<^verbatim>\<open>max_research_loops\<close> is not in the schema.
\<close>

definition routing_state :: "overall_state \<Rightarrow> reflection_state \<Rightarrow> reflection_state" where
  "routing_state st rs = rs\<lparr>follow_up_queries := all_follow_up_queries st\<rparr>"

section \<open>Nodes (agent/graph.py)\<close>

definition nl :: string where
  "nl = [CHR 0x0A]"

definition dquote :: string where
  "dquote = [CHR 0x22]"

fun str_join :: "string \<Rightarrow> string list \<Rightarrow> string" where
  "str_join sep [] = []"
| "str_join sep [x] = x"
| "str_join sep (x # y # ys) = x @ sep @ str_join sep (y # ys)"

text \<open>\<^verbatim>\<open>state["messages"][-1].content\<close>; indexing an empty list raises.\<close>

definition last_message :: "overall_state \<Rightarrow> run_error + string" where
  "last_message st = (if messages st = [] then Inl IndexError else Inr (last (messages st)))"

definition generate_query ::
  "environment \<Rightarrow> configuration \<Rightarrow> overall_state \<Rightarrow> run_error + string list" where
  "generate_query env cfg st =
     (let count = (case initial_search_query_count st of
                     None \<Rightarrow> number_of_initial_queries cfg
                   | Some c \<Rightarrow> c)
      in case last_message st of
           Inl e \<Rightarrow> Inl e
         | Inr research_topic \<Rightarrow>
             (case env_invoke_queries env (query_generator_model cfg)
                     (query_writer_instructions env (env_current_date env) research_topic count) of
                Inl e \<Rightarrow> Inl (CapabilityFailure e)
              | Inr query \<Rightarrow> Inr query))"

definition continue_to_web_research :: "string list \<Rightarrow> web_search_state list" where
  "continue_to_web_research qs =
     map (\<lambda>(idx, q). \<lparr>ws_search_query = q, ws_id = int idx\<rparr>) (List.enumerate 0 qs)"

definition source_info :: "search_hit \<Rightarrow> source" where
  "source_info result =
     \<lparr>src_url = Some (hit_url result), src_title = Some (hit_title result),
      src_snippet = Some (hit_snippet result)\<rparr>"

definition search_content_entry :: "nat \<times> search_hit \<Rightarrow> string" where
  "search_content_entry p =
     (case p of (i, result) \<Rightarrow>
        nl @ ''['' @ str_nat i @ ''] '' @ hit_title result @ nl @
        ''URL: '' @ hit_url result @ nl @
        ''Snippet: '' @ hit_snippet result @ nl @ ''---'' @ nl)"

definition analysis_prompt :: "string \<Rightarrow> string \<Rightarrow> string \<Rightarrow> string" where
  "analysis_prompt formatted_prompt query search_content =
     nl @ ''    '' @ formatted_prompt @ nl @ ''    '' @ nl @
     ''    Based on the following search results for '' @ dquote @ query @ dquote @
     '', provide a comprehensive analysis:'' @ nl @ ''    '' @ nl @
     ''    '' @ search_content @ nl @ ''    '' @ nl @
     ''    Please synthesize the key information, highlight important findings, and note any contradictions or gaps.'' @ nl @
     ''    Include specific references to sources using [1], [2], etc. format.'' @ nl @
     ''    ''"

definition no_results_update :: "string \<Rightarrow> research_update" where
  "no_results_update query =
     \<lparr>upd_sources_gathered = [],
      upd_search_query = [query],
      upd_web_research_result = [''No search results found for: '' @ query]\<rparr>"

definition web_research ::
  "environment \<Rightarrow> configuration \<Rightarrow> web_search_state \<Rightarrow> run_error + research_update" where
  "web_research env cfg st =
     (let search_results = fst (search_web (env_search env) (ws_search_query st) 8)
      in if search_results = [] then Inr (no_results_update (ws_search_query st))
         else
           let sources = map source_info search_results;
               search_content = concat (map search_content_entry (List.enumerate 1 search_results));
               formatted_prompt =
                 web_searcher_instructions env (env_current_date env) (ws_search_query st)
           in case env_invoke_text env (query_generator_model cfg)
                     (analysis_prompt formatted_prompt (ws_search_query st) search_content) of
                Inl e \<Rightarrow> Inl (CapabilityFailure e)
              | Inr response_text \<Rightarrow>
                  Inr \<lparr>upd_sources_gathered = sources,
                       upd_search_query = [ws_search_query st],
                       upd_web_research_result =
                         [insert_citation_markers response_text sources]\<rparr>)"

definition loop_count :: "overall_state \<Rightarrow> int" where
  "loop_count st = (case research_loop_count st of None \<Rightarrow> 0 | Some c \<Rightarrow> c)"

definition reflection ::
  "environment \<Rightarrow> configuration \<Rightarrow> overall_state \<Rightarrow> run_error + reflection_state" where
  "reflection env cfg st =
     (let count = loop_count st + 1;
          model = (case reasoning_model st of None \<Rightarrow> reflection_model cfg | Some m \<Rightarrow> m)
      in case last_message st of
           Inl e \<Rightarrow> Inl e
         | Inr research_topic \<Rightarrow>
             (case env_invoke_reflection env model
                     (reflection_instructions env (env_current_date env) research_topic
                        (str_join (nl @ nl @ ''---'' @ nl @ nl) (web_research_result st))) of
                Inl e \<Rightarrow> Inl (CapabilityFailure e)
              | Inr result \<Rightarrow>
                  Inr \<lparr>is_sufficient = v_is_sufficient result,
                       knowledge_gap = v_knowledge_gap result,
                       follow_up_queries = v_follow_up_queries result,
                       rs_research_loop_count = count,
                       number_of_ran_queries = int (length (search_query st))\<rparr>))"

text \<open>
  \<^verbatim>\<open>state.get("max_research_loops") or configurable.max_research_loops\<close>: a missing
  key, \<^verbatim>\<open>None\<close> and \<^verbatim>\<open>0\<close> are all falsy and give the configured value.
\<close>

definition effective_max_loops :: "int option \<Rightarrow> configuration \<Rightarrow> int" where
  "effective_max_loops m cfg =
     (case m of
        None \<Rightarrow> cfg_max_research_loops cfg
      | Some v \<Rightarrow> if v = 0 then cfg_max_research_loops cfg else v)"

datatype route = Finalize_Answer | Send_Web_Research "web_search_state list"

text \<open>
  \<^verbatim>\<open>evaluate_research\<close>; the second argument is \<^verbatim>\<open>state.get("max_research_loops")\<close>.
\<close>

definition evaluate_research ::
  "reflection_state \<Rightarrow> int option \<Rightarrow> configuration \<Rightarrow> route" where
  "evaluate_research st m cfg =
     (let max_loops = effective_max_loops m cfg
      in if is_sufficient st \<or> max_loops \<le> rs_research_loop_count st then Finalize_Answer
         else Send_Web_Research
                (map (\<lambda>(idx, follow_up_query).
                        \<lparr>ws_search_query = follow_up_query,
                         ws_id = number_of_ran_queries st + int idx\<rparr>)
                   (List.enumerate 0 (follow_up_queries st))))"

definition flatten_gathered :: "gathered list \<Rightarrow> source list" where
  "flatten_gathered gs = concat (map (\<lambda>g. case g of One s \<Rightarrow> [s] | Many ss \<Rightarrow> ss) gs)"

text \<open>
  \<^verbatim>\<open>state.get("reasoning_model") or configurable.answer_model\<close>: the empty string is
  falsy as well.
\<close>

definition finalize_answer ::
  "environment \<Rightarrow> configuration \<Rightarrow> overall_state \<Rightarrow> run_error + final_update" where
  "finalize_answer env cfg st =
     (let model = (case reasoning_model st of
                     None \<Rightarrow> answer_model cfg
                   | Some m \<Rightarrow> if m = [] then answer_model cfg else m)
      in case last_message st of
           Inl e \<Rightarrow> Inl e
         | Inr research_topic \<Rightarrow>
             (case env_invoke_text env model
                     (answer_instructions env (env_current_date env) research_topic
                        (str_join (nl @ ''---'' @ nl @ nl) (web_research_result st))) of
                Inl e \<Rightarrow> Inl (CapabilityFailure e)
              | Inr content \<Rightarrow>
                  Inr \<lparr>fin_messages = [content],
                       fin_sources_gathered = flatten_gathered (sources_gathered st)\<rparr>))"

section \<open>The graph (builder wiring at the end of agent/graph.py)\<close>

text \<open>
  The edges are \<^verbatim>\<open>START \<rightarrow> generate_query\<close>, the conditional edge
  \<^verbatim>\<open>continue_to_web_research\<close>, \<^verbatim>\<open>web_research \<rightarrow> reflection\<close>, the conditional edge
  \<^verbatim>\<open>evaluate_research\<close> and \<^verbatim>\<open>finalize_answer \<rightarrow> END\<close>.  The runtime starts one
  \<^verbatim>\<open>web_research\<close> task per \<^verbatim>\<open>Send\<close> of a batch, waits for all of them, folds their
  returned dicts into the state and then runs \<^verbatim>\<open>reflection\<close> once.  An exception in a
  node ends the run with that exception.  The tasks of a batch do not see each other, so
  the model runs them in dispatch order.  A conditional edge reads the state after its
  node's returned dict has been folded in: \<^verbatim>\<open>continue_to_web_research\<close> sees the
  state's \<^verbatim>\<open>search_query\<close> list with the planner's queries appended.  When a
  conditional edge returns no \<^verbatim>\<open>Send\<close> at all, no node is scheduled and the run ends
  without an answer.
\<close>

datatype outcome = Failed run_error | Stopped | Finalized final_update

text \<open>
  What a run leaves behind: every \<^verbatim>\<open>Send\<close> it dispatched, in order, the state the
  last node saw, and how the run ended.
\<close>

record run_report =
  dispatched :: "web_search_state list"
  final_state :: overall_state
  outcome :: outcome

fun run_tasks ::
  "environment \<Rightarrow> configuration \<Rightarrow> web_search_state list \<Rightarrow> run_error + research_update list" where
  "run_tasks env cfg [] = Inr []"
| "run_tasks env cfg (t # ts) =
     (case web_research env cfg t of
        Inl e \<Rightarrow> Inl e
      | Inr u \<Rightarrow> (case run_tasks env cfg ts of Inl e \<Rightarrow> Inl e | Inr us \<Rightarrow> Inr (u # us)))"

definition fan_in :: "overall_state \<Rightarrow> research_update list \<Rightarrow> overall_state" where
  "fan_in st us = foldl merge_research st us"

definition add_batch :: "web_search_state list \<Rightarrow> run_report \<Rightarrow> run_report" where
  "add_batch tasks r = r\<lparr>dispatched := tasks @ dispatched r\<rparr>"

text \<open>
  One pass from \<^verbatim>\<open>reflection\<close> through \<^verbatim>\<open>evaluate_research\<close> to the end of the next
  fan-in: either the run is over, or a follow-up batch has completed.  The state
  \<^verbatim>\<open>evaluate_research\<close> is handed has no key \<^verbatim>\<open>max_research_loops\<close>, so its
  \<^verbatim>\<open>state.get("max_research_loops")\<close> is \<^verbatim>\<open>None\<close> and the maximum in force is the
  configured one, also when the input of the run carries a maximum of its own.
\<close>

datatype step = Done run_report | Next_Round "web_search_state list" overall_state

definition round_step :: "environment \<Rightarrow> configuration \<Rightarrow> overall_state \<Rightarrow> step" where
  "round_step env cfg st =
     (case reflection env cfg st of
        Inl e \<Rightarrow> Done \<lparr>dispatched = [], final_state = st, outcome = Failed e\<rparr>
      | Inr rs \<Rightarrow>
          (let st1 = merge_reflection st rs
           in (case evaluate_research (routing_state st1 rs) None cfg of
                 Finalize_Answer \<Rightarrow>
                   (case finalize_answer env cfg st1 of
                      Inl e \<Rightarrow> Done \<lparr>dispatched = [], final_state = st1, outcome = Failed e\<rparr>
                    | Inr f \<Rightarrow> Done \<lparr>dispatched = [], final_state = st1, outcome = Finalized f\<rparr>)
               | Send_Web_Research tasks \<Rightarrow>
                   (if tasks = [] then Done \<lparr>dispatched = [], final_state = st1, outcome = Stopped\<rparr>
                    else (case run_tasks env cfg tasks of
                            Inl e \<Rightarrow> Done \<lparr>dispatched = tasks, final_state = st1, outcome = Failed e\<rparr>
                          | Inr us \<Rightarrow> Next_Round tasks (fan_in st1 us))))))"

text \<open>The maximum in force in a run, and the rounds still allowed: the measure of the
  research loop.\<close>

definition round_limit :: "configuration \<Rightarrow> int" where
  "round_limit cfg = effective_max_loops None cfg"

definition rounds_left :: "configuration \<Rightarrow> overall_state \<Rightarrow> nat" where
  "rounds_left cfg st = nat (round_limit cfg - loop_count st)"

lemma fan_in_scalars:
  "max_research_loops (fan_in st us) = max_research_loops st \<and>
   research_loop_count (fan_in st us) = research_loop_count st \<and>
   messages (fan_in st us) = messages st \<and>
   reasoning_model (fan_in st us) = reasoning_model st \<and>
   all_follow_up_queries (fan_in st us) = all_follow_up_queries st"
  unfolding fan_in_def
  by (induction us arbitrary: st) (simp_all add: merge_research_def)

lemma reflection_count:
  "reflection env cfg st = Inr rs \<Longrightarrow> rs_research_loop_count rs = loop_count st + 1"
  by (auto simp: reflection_def Let_def split: sum.splits)

lemma evaluate_research_sends_budget:
  "evaluate_research rs m cfg = Send_Web_Research tasks \<Longrightarrow>
     \<not> is_sufficient rs \<and> rs_research_loop_count rs < effective_max_loops m cfg"
  by (auto simp: evaluate_research_def Let_def split: if_splits)

lemma round_step_next:
  assumes "round_step env cfg st = Next_Round tasks st'"
  shows "loop_count st' = loop_count st + 1"
    and "loop_count st' < round_limit cfg"
proof -
  from assms obtain rs us where
      r: "reflection env cfg st = Inr rs"
    and e: "evaluate_research (routing_state (merge_reflection st rs) rs) None cfg =
            Send_Web_Research tasks"
    and s: "st' = fan_in (merge_reflection st rs) us"
    by (auto simp: round_step_def Let_def split: sum.splits route.splits if_splits)
  have c: "loop_count st' = rs_research_loop_count rs"
    using s by (simp add: loop_count_def fan_in_scalars merge_reflection_def)
  show "loop_count st' = loop_count st + 1"
    using c reflection_count [OF r] by simp
  show "loop_count st' < round_limit cfg"
    using c evaluate_research_sends_budget [OF e]
    by (simp add: routing_state_def round_limit_def)
qed

lemma round_step_decreases:
  "round_step env cfg st = Next_Round tasks st' \<Longrightarrow> rounds_left cfg st' < rounds_left cfg st"
  using round_step_next [of env cfg st tasks st']
  by (simp add: rounds_left_def)

function research_rounds :: "environment \<Rightarrow> configuration \<Rightarrow> overall_state \<Rightarrow> run_report" where
  "research_rounds env cfg st =
     (case round_step env cfg st of
        Done r \<Rightarrow> r
      | Next_Round tasks st' \<Rightarrow> add_batch tasks (research_rounds env cfg st'))"
  by pat_completeness auto
termination
  by (relation "measure (\<lambda>(env, cfg, st). rounds_left cfg st)")
     (auto simp: round_step_decreases)

definition run_graph :: "environment \<Rightarrow> configuration \<Rightarrow> overall_state \<Rightarrow> run_report" where
  "run_graph env cfg st0 =
     (case generate_query env cfg st0 of
        Inl e \<Rightarrow> \<lparr>dispatched = [], final_state = st0, outcome = Failed e\<rparr>
      | Inr qs \<Rightarrow>
          let st1 = merge_queries st0 qs;
              tasks = continue_to_web_research (search_query st1)
          in if tasks = [] then \<lparr>dispatched = [], final_state = st1, outcome = Stopped\<rparr>
             else (case run_tasks env cfg tasks of
                     Inl e \<Rightarrow> \<lparr>dispatched = tasks, final_state = st1, outcome = Failed e\<rparr>
                   | Inr us \<Rightarrow> add_batch tasks (research_rounds env cfg (fan_in st1 us))))"

text \<open>
  Two descriptions of dispatch indices, used to state what a run assigns: the
  consecutive indices of a batch that starts at \<open>start\<close>, and the index of the
  \<open>j\<close>-th query a run dispatches (counting from 0) when its first batch has \<open>n\<close>
  queries.
\<close>

definition batch_ids :: "nat \<Rightarrow> nat \<Rightarrow> int list" where
  "batch_ids start n = map (\<lambda>j. int start + int j) [0..<n]"

definition run_index :: "nat \<Rightarrow> nat \<Rightarrow> int" where
  "run_index n j = (if j < n then int j else int (n + j))"

section \<open>Sample inputs\<close>

text \<open>
  Concrete stand-ins for the outside world, used to run the model: a search provider
  that knows a query with no results, one that fails, and one with more results than the
  runner asks for; a summarizer that cites two sources; a planner with two queries; and
  an evaluator that is never satisfied and always suggests one follow-up.
\<close>

definition demo_cfg :: configuration where
  "demo_cfg =
     \<lparr>query_generator_model = ''gpt-4o-mini'', reflection_model = ''gpt-4o-mini'',
      answer_model = ''gpt-4o'', search_model = ''gpt-4o-mini'',
      number_of_initial_queries = 3, cfg_max_research_loops = 2,
      search_results_per_query = 8\<rparr>"

definition two_hits :: "organic_result list" where
  "two_hits =
     [\<lparr>res_title = Some ''X'', res_link = Some ''u1'', res_snippet = Some ''first''\<rparr>,
      \<lparr>res_title = Some ''Y'', res_link = Some ''u2'', res_snippet = None\<rparr>]"

definition twelve_hits :: "organic_result list" where
  "twelve_hits =
     map (\<lambda>i. \<lparr>res_title = Some (''T'' @ str_nat i), res_link = Some (''u'' @ str_nat i),
               res_snippet = None\<rparr>) [1..<13]"

definition demo_search :: "search_params \<Rightarrow> string + search_data" where
  "demo_search p =
     (if sp_q p = ''nothing'' then Inr (Some [])
      else if sp_q p = ''offline'' then Inl ''connection refused''
      else if sp_q p = ''many'' then Inr (Some twelve_hits)
      else Inr (Some two_hits))"

definition demo_env :: environment where
  "demo_env =
     \<lparr>env_search = demo_search,
      env_invoke_text = (\<lambda>model prompt. Inr ''See [1] and [2].''),
      env_invoke_queries = (\<lambda>model prompt. Inr [''q1'', ''q2'']),
      env_invoke_reflection =
        (\<lambda>model prompt. Inr \<lparr>v_is_sufficient = False, v_knowledge_gap = ''gap'',
                               v_follow_up_queries = [''f1'']\<rparr>),
      env_current_date = ''November 3, 2026'',
      query_writer_instructions = (\<lambda>date topic n. topic),
      web_searcher_instructions = (\<lambda>date topic. topic),
      reflection_instructions = (\<lambda>date topic summaries. summaries),
      answer_instructions = (\<lambda>date topic summaries. summaries)\<rparr>"

text \<open>The same world with a summarizer that times out.\<close>

definition summarizer_down_env :: environment where
  "summarizer_down_env = demo_env\<lparr>env_invoke_text := (\<lambda>model prompt. Inl ''model timed out'')\<rparr>"

text \<open>The input of \<^verbatim>\<open>run_agent.py\<close>: only the question.\<close>

definition demo_input :: overall_state where
  "demo_input =
     \<lparr>messages = [''What is the capital of France?''], search_query = [],
      web_research_result = [], sources_gathered = [],
      initial_search_query_count = None, max_research_loops = None,
      research_loop_count = None, reasoning_model = None, all_follow_up_queries = []\<rparr>"

text \<open>
  The state of the sample run when its first batch has completed, and the verdict
  \<^verbatim>\<open>reflection\<close> returns on it.
\<close>

definition after_first_round :: overall_state where
  "after_first_round =
     demo_input\<lparr>search_query := [''q1'', ''q2'', ''q1'', ''q2''],
                web_research_result := [''See [X](u1) and [Y](u2).'', ''See [X](u1) and [Y](u2).'']\<rparr>"

definition first_verdict :: reflection_state where
  "first_verdict =
     \<lparr>is_sufficient = False, knowledge_gap = ''gap'', follow_up_queries = [''f1''],
      rs_research_loop_count = 1, number_of_ran_queries = 4\<rparr>"

text \<open>
  The two sources of the spec's citation example, and a pair whose first title holds
  the marker of the second.
\<close>

definition cited_sources :: "source list" where
  "cited_sources =
     [\<lparr>src_url = Some ''u1'', src_title = Some ''X'', src_snippet = None\<rparr>,
      \<lparr>src_url = Some ''u2'', src_title = Some ''Y'', src_snippet = None\<rparr>]"

definition cascading_sources :: "source list" where
  "cascading_sources =
     [\<lparr>src_url = Some ''u1'', src_title = Some ''Python [2] tutorial'', src_snippet = None\<rparr>,
      \<lparr>src_url = Some ''u2'', src_title = Some ''Y'', src_snippet = None\<rparr>]"

text \<open>
  An evaluator that is never satisfied and suggests nothing, and the input of
  \<^verbatim>\<open>examples/cli_research.py\<close> run with \<^verbatim>\<open>--max-loops 1\<close>.
\<close>

definition no_follow_up_env :: environment where
  "no_follow_up_env =
     demo_env\<lparr>env_invoke_reflection :=
                (\<lambda>model prompt. Inr \<lparr>v_is_sufficient = False, v_knowledge_gap = ''gap'',
                                       v_follow_up_queries = []\<rparr>)\<rparr>"

definition state_limit_input :: overall_state where
  "state_limit_input = demo_input\<lparr>max_research_loops := Some 1\<rparr>"

definition src_a :: source where
  "src_a = \<lparr>src_url = Some ''a'', src_title = Some ''A'', src_snippet = Some ''''\<rparr>"

definition src_b :: source where
  "src_b = \<lparr>src_url = Some ''b'', src_title = Some ''B'', src_snippet = Some ''''\<rparr>"

text \<open>A state at finalization whose findings cite \<open>a\<close>, \<open>b\<close> and \<open>a\<close> again.\<close>

definition duplicate_sources_state :: overall_state where
  "duplicate_sources_state =
     demo_input\<lparr>web_research_result := [''one'', ''two''],
                sources_gathered := [One src_a, One src_b, One src_a],
                research_loop_count := Some 1\<rparr>"

section \<open>Properties\<close>

text \<open>
  Claim C10.  With an empty source list \<^verbatim>\<open>insert_citation_markers\<close> returns its text
  argument as it is, whatever markers the text holds.
\<close>

theorem insert_citation_markers_no_sources:
  "insert_citation_markers text [] = text"
  by (simp add: insert_citation_markers_def)

subsection \<open>Routing after an evaluation\<close>

text \<open>
  Claim C2.  \<^verbatim>\<open>evaluate_research\<close> routes to \<^verbatim>\<open>finalize_answer\<close> as soon as the verdict
  is sufficient, whatever budget is left and whatever follow-up queries the verdict
  carries; and an insufficient verdict at or past the round budget is routed to
  \<^verbatim>\<open>finalize_answer\<close> as well.  The function has no error result.
\<close>

theorem evaluate_research_sufficiency_first:
  assumes "is_sufficient st \<or> effective_max_loops m cfg \<le> rs_research_loop_count st"
  shows "evaluate_research st m cfg = Finalize_Answer"
  using assms by (auto simp: evaluate_research_def Let_def)

theorem evaluate_research_sufficiency_first_witness:
  "evaluate_research
     \<lparr>is_sufficient = True, knowledge_gap = '''', follow_up_queries = [''more'', ''again''],
      rs_research_loop_count = 1, number_of_ran_queries = 4\<rparr> (Some 5) demo_cfg = Finalize_Answer \<and>
   evaluate_research
     \<lparr>is_sufficient = False, knowledge_gap = ''gap'', follow_up_queries = [''more''],
      rs_research_loop_count = 2, number_of_ran_queries = 4\<rparr> None demo_cfg = Finalize_Answer"
proof -
  have a: "is_sufficient
     \<lparr>is_sufficient = True, knowledge_gap = '''', follow_up_queries = [''more'', ''again''],
      rs_research_loop_count = 1, number_of_ran_queries = 4\<rparr> \<or>
     effective_max_loops (Some 5) demo_cfg \<le> rs_research_loop_count
     \<lparr>is_sufficient = True, knowledge_gap = '''', follow_up_queries = [''more'', ''again''],
      rs_research_loop_count = 1, number_of_ran_queries = 4\<rparr>"
    by simp
  have b: "is_sufficient
     \<lparr>is_sufficient = False, knowledge_gap = ''gap'', follow_up_queries = [''more''],
      rs_research_loop_count = 2, number_of_ran_queries = 4\<rparr> \<or>
     effective_max_loops None demo_cfg \<le> rs_research_loop_count
     \<lparr>is_sufficient = False, knowledge_gap = ''gap'', follow_up_queries = [''more''],
      rs_research_loop_count = 2, number_of_ran_queries = 4\<rparr>"
    by (simp add: effective_max_loops_def demo_cfg_def)
  show ?thesis
    using evaluate_research_sufficiency_first [OF a] evaluate_research_sufficiency_first [OF b]
    by simp
qed

subsection \<open>The search task runner\<close>

text \<open>
  Claim C7.  When the search gives no results, \<^verbatim>\<open>web_research\<close> returns normally: the
  finding has no sources, and its text is the placeholder
  \<^verbatim>\<open>No search results found for: \<close> followed by the query, so it is not empty.
\<close>

theorem web_research_zero_results:
  assumes "fst (search_web (env_search env) (ws_search_query st) 8) = []"
  shows "web_research env cfg st =
           Inr \<lparr>upd_sources_gathered = [],
                upd_search_query = [ws_search_query st],
                upd_web_research_result =
                  [''No search results found for: '' @ ws_search_query st]\<rparr>"
  using assms by (simp add: web_research_def no_results_update_def)

theorem web_research_zero_results_witness:
  "fst (search_web (env_search demo_env) ''nothing'' 8) = [] \<and>
   web_research demo_env demo_cfg \<lparr>ws_search_query = ''nothing'', ws_id = 0\<rparr> =
     Inr \<lparr>upd_sources_gathered = [],
          upd_search_query = [''nothing''],
          upd_web_research_result = [''No search results found for: nothing'']\<rparr>"
proof -
  have h: "fst (search_web (env_search demo_env)
                  (ws_search_query \<lparr>ws_search_query = ''nothing'', ws_id = 0\<rparr>) 8) = []"
    by (simp add: search_web_def demo_env_def demo_search_def build_params_def py_slice_to_def)
  show ?thesis
    using h web_research_zero_results [OF h, of demo_cfg] by simp
qed

lemma search_web_length: "0 \<le> n \<Longrightarrow> length (fst (search_web api q n)) \<le> nat n"
  by (auto simp: search_web_def py_slice_to_def split: sum.splits option.splits)

lemma web_research_sources:
  "web_research env cfg st = Inr u \<Longrightarrow>
     upd_sources_gathered u = [] \<or>
     upd_sources_gathered u =
       map source_info (fst (search_web (env_search env) (ws_search_query st) 8))"
  by (auto simp: web_research_def Let_def no_results_update_def split: if_splits sum.splits)

text \<open>
  Claim C9.  The runner calls \<^verbatim>\<open>search_web\<close> with \<^verbatim>\<open>num_results=8\<close>; the request asks
  the provider for \<^verbatim>\<open>min(num_results, 10)\<close> results, which is 8 here and never more than
  10; the response is cut to its first 8 entries, so a finding has at most 8 sources.
\<close>

theorem web_research_result_bound:
  "sp_num (build_params q 8) = 8 \<and>
   sp_num (build_params q n) \<le> 10 \<and>
   length (fst (search_web api q 8)) \<le> 8 \<and>
   (web_research env cfg st = Inr u \<longrightarrow> length (upd_sources_gathered u) \<le> 8)"
proof -
  have "length (fst (search_web (env_search env) (ws_search_query st) 8)) \<le> 8"
    using search_web_length [of 8 "env_search env" "ws_search_query st"] by simp
  moreover have "length (fst (search_web api q 8)) \<le> 8"
    using search_web_length [of 8 api q] by simp
  ultimately show ?thesis
    using web_research_sources [of env cfg st u]
    by (auto simp: build_params_def)
qed

theorem web_research_result_bound_witness:
  "length twelve_hits = 12 \<and>
   (\<exists>u. web_research demo_env demo_cfg \<lparr>ws_search_query = ''many'', ws_id = 0\<rparr> = Inr u \<and>
        length (upd_sources_gathered u) = 8 \<and> length (upd_sources_gathered u) \<le> 8)"
proof -
  have len: "length twelve_hits = 12"
    by (simp add: twelve_hits_def)
  have "case web_research demo_env demo_cfg \<lparr>ws_search_query = ''many'', ws_id = 0\<rparr> of
          Inl e \<Rightarrow> False
        | Inr u \<Rightarrow> length (upd_sources_gathered u) = 8"
    by code_simp
  then obtain u where
      u: "web_research demo_env demo_cfg \<lparr>ws_search_query = ''many'', ws_id = 0\<rparr> = Inr u"
    and l: "length (upd_sources_gathered u) = 8"
    by (auto split: sum.splits)
  have "length (upd_sources_gathered u) \<le> 8"
    using u web_research_result_bound [of "''many''" 8 demo_search demo_env demo_cfg
        "\<lparr>ws_search_query = ''many'', ws_id = 0\<rparr>" u]
    by blast
  with len u l show ?thesis
    by blast
qed

lemma web_research_one_entry:
  "web_research env cfg t = Inr u \<Longrightarrow>
     length (upd_web_research_result u) = 1 \<and> length (upd_search_query u) = 1"
  by (auto simp: web_research_def Let_def no_results_update_def split: if_splits sum.splits)

lemma run_tasks_updates:
  "run_tasks env cfg tasks = Inr us \<Longrightarrow>
     length us = length tasks \<and>
     (\<forall>u \<in> set us. length (upd_web_research_result u) = 1 \<and> length (upd_search_query u) = 1)"
proof (induction tasks arbitrary: us)
  case Nil
  then show ?case by simp
next
  case (Cons t ts)
  then obtain u us' where u: "web_research env cfg t = Inr u"
    and r: "run_tasks env cfg ts = Inr us'" and us: "us = u # us'"
    by (auto split: sum.splits)
  show ?case
    using Cons.IH [OF r] web_research_one_entry [OF u] us by simp
qed

lemma fan_in_lengths:
  "\<forall>u \<in> set us. length (upd_web_research_result u) = 1 \<and> length (upd_search_query u) = 1 \<Longrightarrow>
     length (web_research_result (fan_in st us)) = length (web_research_result st) + length us \<and>
     length (search_query (fan_in st us)) = length (search_query st) + length us"
  unfolding fan_in_def
  by (induction us arbitrary: st) (simp_all add: merge_research_def)

text \<open>
  Claim C8.  When all tasks of a batch have returned, each of them has contributed
  exactly one \<^verbatim>\<open>web_research_result\<close> entry and one \<^verbatim>\<open>search_query\<close> entry, on the
  zero-result branch as on the summarizing one; so the fan-in adds as many findings to
  the state as queries were dispatched in the batch.
\<close>

theorem fan_in_counts_findings:
  assumes "run_tasks env cfg tasks = Inr us"
  shows "length (web_research_result (fan_in st us)) =
           length (web_research_result st) + length tasks \<and>
         length (search_query (fan_in st us)) = length (search_query st) + length tasks \<and>
         length us = length tasks \<and>
         (\<forall>u \<in> set us. length (upd_web_research_result u) = 1 \<and> length (upd_search_query u) = 1) \<and>
         (\<forall>t u. web_research env cfg t = Inr u \<longrightarrow>
            length (upd_web_research_result u) = 1 \<and> length (upd_search_query u) = 1)"
  using run_tasks_updates [OF assms] fan_in_lengths [of us st] web_research_one_entry [of env cfg]
  by simp

theorem fan_in_counts_findings_witness:
  "\<exists>us. run_tasks demo_env demo_cfg
           [\<lparr>ws_search_query = ''q1'', ws_id = 0\<rparr>, \<lparr>ws_search_query = ''nothing'', ws_id = 1\<rparr>,
            \<lparr>ws_search_query = ''offline'', ws_id = 2\<rparr>] = Inr us \<and>
        length (web_research_result (fan_in demo_input us)) = 3"
proof -
  have "case run_tasks demo_env demo_cfg
           [\<lparr>ws_search_query = ''q1'', ws_id = 0\<rparr>, \<lparr>ws_search_query = ''nothing'', ws_id = 1\<rparr>,
            \<lparr>ws_search_query = ''offline'', ws_id = 2\<rparr>] of Inl e \<Rightarrow> False | Inr us \<Rightarrow> True"
    by code_simp
  then obtain us where us: "run_tasks demo_env demo_cfg
           [\<lparr>ws_search_query = ''q1'', ws_id = 0\<rparr>, \<lparr>ws_search_query = ''nothing'', ws_id = 1\<rparr>,
            \<lparr>ws_search_query = ''offline'', ws_id = 2\<rparr>] = Inr us"
    by (auto split: sum.splits)
  have "length (web_research_result (fan_in demo_input us)) = 3"
    using fan_in_counts_findings [OF us, of demo_input] by (simp add: demo_input_def)
  with us show ?thesis by blast
qed

text \<open>
  Claim C3, as the code has it.  A failure of the search call does not abort the
  runner: \<^verbatim>\<open>search_web\<close> catches it, prints \<^verbatim>\<open>Search API error: \<close> with the message
  and returns no results, and \<^verbatim>\<open>web_research\<close> then returns the same finding as for a
  query without results, with no sources and the text
  \<^verbatim>\<open>No search results found for: \<close> followed by the query.  The error message is in
  the printed line only, not in the finding.
\<close>

theorem web_research_search_failure_degrades:
  assumes "env_search env (build_params (ws_search_query st) 8) = Inl e"
  shows "search_web (env_search env) (ws_search_query st) 8 = ([], [''Search API error: '' @ e]) \<and>
         web_research env cfg st =
           Inr \<lparr>upd_sources_gathered = [],
                upd_search_query = [ws_search_query st],
                upd_web_research_result =
                  [''No search results found for: '' @ ws_search_query st]\<rparr>"
  using assms by (simp add: search_web_def web_research_def no_results_update_def)

theorem web_research_search_failure_degrades_witness:
  "env_search demo_env (build_params ''offline'' 8) = Inl ''connection refused'' \<and>
   search_web (env_search demo_env) ''offline'' 8 =
     ([], [''Search API error: connection refused'']) \<and>
   web_research demo_env demo_cfg \<lparr>ws_search_query = ''offline'', ws_id = 3\<rparr> =
     Inr \<lparr>upd_sources_gathered = [],
          upd_search_query = [''offline''],
          upd_web_research_result = [''No search results found for: offline'']\<rparr>"
proof -
  have h: "env_search demo_env
             (build_params (ws_search_query \<lparr>ws_search_query = ''offline'', ws_id = 3\<rparr>) 8) =
           Inl ''connection refused''"
    by (simp add: demo_env_def demo_search_def build_params_def)
  show ?thesis
    using h web_research_search_failure_degrades [OF h, of demo_cfg] by simp
qed

text \<open>
  Claim C3 as stated fails twice.  The call of the summarizer in \<^verbatim>\<open>web_research\<close> is
  not inside any \<^verbatim>\<open>try\<close>: when it raises, the runner raises and the whole run ends
  with that failure.  And the finding a failed search degrades to does not mention the
  error.
\<close>

theorem web_research_failure_counterexample:
  "web_research summarizer_down_env demo_cfg \<lparr>ws_search_query = ''q1'', ws_id = 0\<rparr> =
     Inl (CapabilityFailure ''model timed out'') \<and>
   outcome (run_graph summarizer_down_env demo_cfg demo_input) =
     Failed (CapabilityFailure ''model timed out'') \<and>
   web_research demo_env demo_cfg \<lparr>ws_search_query = ''offline'', ws_id = 0\<rparr> =
     Inr \<lparr>upd_sources_gathered = [],
          upd_search_query = [''offline''],
          upd_web_research_result = [''No search results found for: offline'']\<rparr> \<and>
   \<not> contains_str ''connection refused'' ''No search results found for: offline''"
  by code_simp

subsection \<open>The finalizer\<close>

lemma flatten_gathered_One: "flatten_gathered (map One ss) = ss"
  by (induction ss) (simp_all add: flatten_gathered_def)

text \<open>
  Claim C4, as the code has it.  \<^verbatim>\<open>finalize_answer\<close> returns every gathered source,
  in the order the findings were folded into the state, and removes nothing: a URL that
  was gathered twice is listed twice.
\<close>

theorem finalize_answer_keeps_all_sources:
  assumes "finalize_answer env cfg st = Inr f"
  shows "fin_sources_gathered f = flatten_gathered (sources_gathered st) \<and>
         (\<forall>ss. sources_gathered st = map One ss \<longrightarrow> fin_sources_gathered f = ss)"
  using assms
  by (auto simp: finalize_answer_def Let_def flatten_gathered_One split: sum.splits)

theorem finalize_answer_keeps_all_sources_witness:
  "\<exists>f. finalize_answer demo_env demo_cfg duplicate_sources_state = Inr f \<and>
       fin_sources_gathered f = [src_a, src_b, src_a]"
proof -
  have "case finalize_answer demo_env demo_cfg duplicate_sources_state of
          Inl e \<Rightarrow> False | Inr f \<Rightarrow> True"
    by code_simp
  then obtain f where f: "finalize_answer demo_env demo_cfg duplicate_sources_state = Inr f"
    by (auto split: sum.splits)
  have s: "sources_gathered duplicate_sources_state = map One [src_a, src_b, src_a]"
    by (simp add: duplicate_sources_state_def)
  have "fin_sources_gathered f = [src_a, src_b, src_a]"
    using finalize_answer_keeps_all_sources [OF f] s by blast
  with f show ?thesis by blast
qed

text \<open>
  Claim C4 as stated fails: with the sources \<open>a\<close>, \<open>b\<close>, \<open>a\<close> gathered, the finalized
  list has the URLs \<open>a\<close>, \<open>b\<close>, \<open>a\<close>, not \<open>a\<close>, \<open>b\<close>.
\<close>

theorem finalize_answer_dedup_counterexample:
  "finalize_answer demo_env demo_cfg duplicate_sources_state =
     Inr \<lparr>fin_messages = [''See [1] and [2].''],
          fin_sources_gathered = [src_a, src_b, src_a]\<rparr> \<and>
   map src_url [src_a, src_b, src_a] = [Some ''a'', Some ''b'', Some ''a''] \<and>
   map src_url [src_a, src_b, src_a] \<noteq> [Some ''a'', Some ''b'']"
  by code_simp

subsection \<open>The research loop\<close>

declare research_rounds.simps [simp del]

lemma merge_reflection_fields:
  "messages (merge_reflection st rs) = messages st"
  "max_research_loops (merge_reflection st rs) = max_research_loops st"
  "search_query (merge_reflection st rs) = search_query st"
  "loop_count (merge_reflection st rs) = rs_research_loop_count rs"
  "all_follow_up_queries (merge_reflection st rs) =
     all_follow_up_queries st @ follow_up_queries rs"
  by (simp_all add: merge_reflection_def loop_count_def)

lemma routing_state_fields:
  "is_sufficient (routing_state st rs) = is_sufficient rs"
  "rs_research_loop_count (routing_state st rs) = rs_research_loop_count rs"
  "number_of_ran_queries (routing_state st rs) = number_of_ran_queries rs"
  "follow_up_queries (routing_state st rs) = all_follow_up_queries st"
  by (simp_all add: routing_state_def)

lemma round_step_done:
  assumes "round_step env cfg st = Done r"
  shows "final_state r = st \<or>
         (\<exists>rs. reflection env cfg st = Inr rs \<and> final_state r = merge_reflection st rs)"
  using assms
  by (auto simp: round_step_def Let_def split: sum.splits route.splits if_splits)

lemma round_step_done_count:
  assumes "round_step env cfg st = Done r"
  shows "loop_count (final_state r) \<le> loop_count st + 1"
    and "max_research_loops (final_state r) = max_research_loops st"
  using round_step_done [OF assms] reflection_count [of env cfg st]
  by (auto simp: merge_reflection_fields)

lemma add_batch_fields:
  "final_state (add_batch tasks r) = final_state r"
  "outcome (add_batch tasks r) = outcome r"
  "dispatched (add_batch tasks r) = tasks @ dispatched r"
  by (simp_all add: add_batch_def)

lemma research_rounds_budget:
  "loop_count st < round_limit cfg \<Longrightarrow>
     loop_count (final_state (research_rounds env cfg st)) \<le> round_limit cfg"
proof (induction env cfg st rule: research_rounds.induct)
  case (1 env cfg st)
  show ?case
  proof (cases "round_step env cfg st")
    case (Done r)
    then have "research_rounds env cfg st = r"
      by (simp add: research_rounds.simps)
    then show ?thesis
      using round_step_done_count(1) [OF Done] "1.prems" by simp
  next
    case (Next_Round tasks st')
    have eq: "research_rounds env cfg st = add_batch tasks (research_rounds env cfg st')"
      using Next_Round by (simp add: research_rounds.simps)
    have lt: "loop_count st' < round_limit cfg"
      using round_step_next(2) [OF Next_Round] .
    show ?thesis
      using "1.IH" [OF Next_Round lt] eq by (simp add: add_batch_fields)
  qed
qed

lemma web_research_succeeds:
  assumes "\<forall>m p. \<exists>t. env_invoke_text env m p = Inr t"
  shows "\<exists>u. web_research env cfg t = Inr u"
proof (cases "fst (search_web (env_search env) (ws_search_query t) 8) = []")
  case True
  then show ?thesis by (simp add: web_research_def)
next
  case False
  obtain response where "env_invoke_text env (query_generator_model cfg)
      (analysis_prompt (web_searcher_instructions env (env_current_date env) (ws_search_query t))
         (ws_search_query t)
         (concat (map search_content_entry
            (List.enumerate 1 (fst (search_web (env_search env) (ws_search_query t) 8)))))) = Inr response"
    using assms by blast
  with False show ?thesis by (simp add: web_research_def Let_def)
qed

lemma run_tasks_succeeds:
  assumes "\<forall>m p. \<exists>t. env_invoke_text env m p = Inr t"
  shows "\<exists>us. run_tasks env cfg tasks = Inr us"
proof (induction tasks)
  case Nil
  then show ?case by simp
next
  case (Cons t ts)
  obtain u where "web_research env cfg t = Inr u"
    using web_research_succeeds [OF assms] by blast
  with Cons show ?case by auto
qed

lemma reflection_insufficient:
  assumes "\<forall>m p. \<exists>v. env_invoke_reflection env m p = Inr v \<and> \<not> v_is_sufficient v \<and>
                        v_follow_up_queries v \<noteq> []"
    and "messages st \<noteq> []"
  shows "\<exists>rs. reflection env cfg st = Inr rs \<and> \<not> is_sufficient rs \<and> follow_up_queries rs \<noteq> [] \<and>
              rs_research_loop_count rs = loop_count st + 1"
proof -
  let ?model = "case reasoning_model st of None \<Rightarrow> reflection_model cfg | Some m \<Rightarrow> m"
  let ?prompt = "reflection_instructions env (env_current_date env) (last (messages st))
                   (str_join (nl @ nl @ ''---'' @ nl @ nl) (web_research_result st))"
  obtain v where "env_invoke_reflection env ?model ?prompt = Inr v" "\<not> v_is_sufficient v"
      "v_follow_up_queries v \<noteq> []"
    using assms(1) by blast
  then show ?thesis
    using assms(2) by (simp add: reflection_def Let_def last_message_def)
qed

lemma finalize_answer_succeeds:
  assumes "\<forall>m p. \<exists>t. env_invoke_text env m p = Inr t" and "messages st \<noteq> []"
  shows "\<exists>f. finalize_answer env cfg st = Inr f"
proof -
  let ?model = "case reasoning_model st of None \<Rightarrow> answer_model cfg
                | Some m \<Rightarrow> if m = [] then answer_model cfg else m"
  let ?prompt = "answer_instructions env (env_current_date env) (last (messages st))
                   (str_join (nl @ ''---'' @ nl @ nl) (web_research_result st))"
  obtain t where "env_invoke_text env ?model ?prompt = Inr t"
    using assms(1) by blast
  then show ?thesis
    using assms(2) by (simp add: finalize_answer_def Let_def last_message_def)
qed

lemma evaluate_research_sends_nonempty:
  assumes "\<not> is_sufficient rs" and "rs_research_loop_count rs < effective_max_loops m cfg"
    and "follow_up_queries rs \<noteq> []"
  shows "\<exists>tasks. evaluate_research rs m cfg = Send_Web_Research tasks \<and> tasks \<noteq> []"
  using assms by (simp add: evaluate_research_def Let_def enumerate_eq_zip)

lemma evaluate_research_budget:
  "effective_max_loops m cfg \<le> rs_research_loop_count rs \<Longrightarrow>
     evaluate_research rs m cfg = Finalize_Answer"
  by (simp add: evaluate_research_def Let_def)

lemma round_step_insufficient:
  assumes refl: "\<forall>m p. \<exists>v. env_invoke_reflection env m p = Inr v \<and> \<not> v_is_sufficient v \<and>
                        v_follow_up_queries v \<noteq> []"
    and txt_ok: "\<forall>m p. \<exists>t. env_invoke_text env m p = Inr t"
    and msg: "messages st \<noteq> []"
  shows "if loop_count st + 1 < round_limit cfg
         then \<exists>tasks st'. round_step env cfg st = Next_Round tasks st' \<and> messages st' = messages st
         else \<exists>rs f. round_step env cfg st =
                  Done \<lparr>dispatched = [], final_state = merge_reflection st rs,
                        outcome = Finalized f\<rparr> \<and>
                rs_research_loop_count rs = loop_count st + 1"
proof -
  obtain rs where r: "reflection env cfg st = Inr rs" and ns: "\<not> is_sufficient rs"
      and fu: "follow_up_queries rs \<noteq> []" and c: "rs_research_loop_count rs = loop_count st + 1"
    using reflection_insufficient [OF refl msg] by blast
  let ?st1 = "merge_reflection st rs"
  let ?view = "routing_state ?st1 rs"
  have vns: "\<not> is_sufficient ?view" and vfu: "follow_up_queries ?view \<noteq> []"
    and vc: "rs_research_loop_count ?view = loop_count st + 1"
    using ns fu c by (simp_all add: routing_state_fields merge_reflection_fields)
  show ?thesis
  proof (cases "loop_count st + 1 < round_limit cfg")
    case True
    then have "rs_research_loop_count ?view < effective_max_loops None cfg"
      using vc by (simp add: round_limit_def)
    then obtain tasks where e: "evaluate_research ?view None cfg = Send_Web_Research tasks"
        and ne: "tasks \<noteq> []"
      using evaluate_research_sends_nonempty [OF vns _ vfu] by blast
    obtain us where us: "run_tasks env cfg tasks = Inr us"
      using run_tasks_succeeds [OF txt_ok] by blast
    have "round_step env cfg st = Next_Round tasks (fan_in ?st1 us)"
      using r e ne us by (simp add: round_step_def Let_def)
    moreover have "messages (fan_in ?st1 us) = messages st"
      by (simp add: fan_in_scalars merge_reflection_fields)
    ultimately show ?thesis using True by auto
  next
    case False
    then have "effective_max_loops None cfg \<le> rs_research_loop_count ?view"
      using vc by (simp add: round_limit_def)
    then have e: "evaluate_research ?view None cfg = Finalize_Answer"
      by (rule evaluate_research_budget)
    obtain f where f: "finalize_answer env cfg ?st1 = Inr f"
      using finalize_answer_succeeds [OF txt_ok, of ?st1] msg by (auto simp: merge_reflection_fields)
    have "round_step env cfg st =
            Done \<lparr>dispatched = [], final_state = ?st1, outcome = Finalized f\<rparr>"
      using r e f by (simp add: round_step_def Let_def)
    then show ?thesis using False c by auto
  qed
qed

lemma research_rounds_exhausts_budget:
  assumes refl: "\<forall>m p. \<exists>v. env_invoke_reflection env m p = Inr v \<and> \<not> v_is_sufficient v \<and>
                        v_follow_up_queries v \<noteq> []"
    and txt_ok: "\<forall>m p. \<exists>t. env_invoke_text env m p = Inr t"
  shows "messages st \<noteq> [] \<Longrightarrow>
         loop_count st < round_limit cfg \<Longrightarrow>
         (\<exists>f. outcome (research_rounds env cfg st) = Finalized f) \<and>
         loop_count (final_state (research_rounds env cfg st)) = round_limit cfg"
  using refl txt_ok
proof (induction env cfg st rule: research_rounds.induct)
  case (1 env cfg st)
  note step = round_step_insufficient [OF "1.prems"(3) "1.prems"(4) "1.prems"(1), of cfg]
  show ?case
  proof (cases "loop_count st + 1 < round_limit cfg")
    case True
    then obtain tasks st' where n: "round_step env cfg st = Next_Round tasks st'"
        and msg: "messages st' = messages st"
      using step by auto
    have eq: "research_rounds env cfg st = add_batch tasks (research_rounds env cfg st')"
      using n by (simp add: research_rounds.simps)
    have lt: "loop_count st' < round_limit cfg"
      using round_step_next(2) [OF n] .
    show ?thesis
      using "1.IH" [OF n _ lt "1.prems"(3) "1.prems"(4)] msg "1.prems"(1) eq
      by (simp add: add_batch_fields)
  next
    case False
    then obtain rs f where d: "round_step env cfg st =
          Done \<lparr>dispatched = [], final_state = merge_reflection st rs, outcome = Finalized f\<rparr>"
        and c: "rs_research_loop_count rs = loop_count st + 1"
      using step by auto
    have "research_rounds env cfg st =
            \<lparr>dispatched = [], final_state = merge_reflection st rs, outcome = Finalized f\<rparr>"
      using d by (simp add: research_rounds.simps)
    then show ?thesis
      using c False "1.prems"(2) by (simp add: merge_reflection_fields)
  qed
qed

lemma continue_to_web_research_length:
  "length (continue_to_web_research qs) = length qs"
  by (simp add: continue_to_web_research_def)

lemma run_graph_cases:
  "(\<exists>e. generate_query env cfg st0 = Inl e \<and>
        run_graph env cfg st0 = \<lparr>dispatched = [], final_state = st0, outcome = Failed e\<rparr>) \<or>
   (\<exists>qs. generate_query env cfg st0 = Inr qs \<and>
      (let st1 = merge_queries st0 qs; tasks = continue_to_web_research (search_query st1)
       in (tasks = [] \<and>
             run_graph env cfg st0 = \<lparr>dispatched = [], final_state = st1, outcome = Stopped\<rparr>) \<or>
          (tasks \<noteq> [] \<and> (\<exists>e. run_tasks env cfg tasks = Inl e \<and>
             run_graph env cfg st0 =
               \<lparr>dispatched = tasks, final_state = st1, outcome = Failed e\<rparr>)) \<or>
          (tasks \<noteq> [] \<and> (\<exists>us. run_tasks env cfg tasks = Inr us \<and>
             run_graph env cfg st0 =
               add_batch tasks (research_rounds env cfg (fan_in st1 us))))))"
  by (cases "generate_query env cfg st0")
     (auto simp: run_graph_def Let_def split: sum.splits)

lemma merge_queries_fields:
  "messages (merge_queries st qs) = messages st"
  "max_research_loops (merge_queries st qs) = max_research_loops st"
  "research_loop_count (merge_queries st qs) = research_loop_count st"
  "search_query (merge_queries st qs) = search_query st @ qs"
  by (simp_all add: merge_queries_def)

lemma loop_count_fan_in: "loop_count (fan_in st us) = loop_count st"
  by (simp add: loop_count_def fan_in_scalars)

lemma loop_count_merge_queries: "loop_count (merge_queries st qs) = loop_count st"
  by (simp add: loop_count_def merge_queries_fields)

lemma run_graph_budget:
  assumes "loop_count st0 < round_limit cfg"
  shows "loop_count (final_state (run_graph env cfg st0)) \<le>
           round_limit cfg"
proof -
  have b: "loop_count (final_state (research_rounds env cfg (fan_in (merge_queries st0 qs) us))) \<le>
             round_limit cfg" for qs us
    using research_rounds_budget [of "fan_in (merge_queries st0 qs) us" cfg env] assms
    by (simp add: loop_count_fan_in loop_count_merge_queries fan_in_scalars merge_queries_fields)
  show ?thesis
    using run_graph_cases [of env cfg st0] assms b
    by (auto simp: Let_def add_batch_fields loop_count_merge_queries)
qed

lemma generate_query_succeeds:
  assumes "\<forall>m p. \<exists>qs. env_invoke_queries env m p = Inr qs \<and> qs \<noteq> []"
    and "messages st \<noteq> []"
  shows "\<exists>qs. generate_query env cfg st = Inr qs \<and> qs \<noteq> []"
proof -
  let ?count = "case initial_search_query_count st of
                  None \<Rightarrow> number_of_initial_queries cfg | Some c \<Rightarrow> c"
  obtain qs where "env_invoke_queries env (query_generator_model cfg)
      (query_writer_instructions env (env_current_date env) (last (messages st)) ?count) = Inr qs"
    "qs \<noteq> []"
    using assms(1) by blast
  then show ?thesis
    using assms(2) by (simp add: generate_query_def Let_def last_message_def)
qed

lemma run_graph_exhausts_budget:
  assumes plan: "\<forall>m p. \<exists>qs. env_invoke_queries env m p = Inr qs \<and> qs \<noteq> []"
    and refl: "\<forall>m p. \<exists>v. env_invoke_reflection env m p = Inr v \<and> \<not> v_is_sufficient v \<and>
                        v_follow_up_queries v \<noteq> []"
    and txt_ok: "\<forall>m p. \<exists>t. env_invoke_text env m p = Inr t"
    and msg: "messages st0 \<noteq> []"
    and lt: "loop_count st0 < round_limit cfg"
  shows "(\<exists>f. outcome (run_graph env cfg st0) = Finalized f) \<and>
         loop_count (final_state (run_graph env cfg st0)) =
           round_limit cfg"
proof -
  obtain qs where g: "generate_query env cfg st0 = Inr qs" and ne: "qs \<noteq> []"
    using generate_query_succeeds [OF plan msg] by blast
  let ?st1 = "merge_queries st0 qs"
  let ?tasks = "continue_to_web_research (search_query ?st1)"
  have t: "?tasks \<noteq> []"
    using ne continue_to_web_research_length [of "search_query ?st1"]
    by (auto simp: merge_queries_fields)
  obtain us where us: "run_tasks env cfg ?tasks = Inr us"
    using run_tasks_succeeds [OF txt_ok] by blast
  have r: "run_graph env cfg st0 = add_batch ?tasks (research_rounds env cfg (fan_in ?st1 us))"
    using g t us by (simp add: run_graph_def Let_def)
  have "(\<exists>f. outcome (research_rounds env cfg (fan_in ?st1 us)) = Finalized f) \<and>
        loop_count (final_state (research_rounds env cfg (fan_in ?st1 us))) =
          round_limit cfg"
    using research_rounds_exhausts_budget [OF refl txt_ok, of "fan_in ?st1 us" cfg] msg lt
    by (simp add: fan_in_scalars merge_queries_fields loop_count_fan_in loop_count_merge_queries)
  then show ?thesis
    using r by (simp add: add_batch_fields fan_in_scalars merge_queries_fields)
qed

lemma fan_in_counts_lemma:
  assumes "run_tasks env cfg tasks = Inr us"
  shows "length (search_query (fan_in st us)) = length (search_query st) + length tasks"
  using run_tasks_updates [OF assms] fan_in_lengths [of us st] by simp

text \<open>
  What the code does keep of the round budget.  \<^verbatim>\<open>reflection\<close> returns the round
  counter of the state plus one, and \<^verbatim>\<open>evaluate_research\<close> routes to
  \<^verbatim>\<open>finalize_answer\<close>, dispatching nothing, whenever the counter has reached the
  maximum it has in force.  So in a run that starts without a round counter, the counter
  never exceeds the configured maximum when that is positive.  And when every capability
  call succeeds, the planner gives at least one query and the evaluator always answers
  insufficient with at least one follow-up query, the run reaches \<^verbatim>\<open>finalize_answer\<close>
  with the counter exactly at the configured maximum.
\<close>

theorem configured_budget_respected:
  assumes fresh: "research_loop_count st0 = None"
    and positive: "0 < round_limit cfg"
  shows "(\<forall>st rs. reflection env cfg st = Inr rs \<longrightarrow>
             rs_research_loop_count rs = loop_count st + 1) \<and>
         (\<forall>rs m. effective_max_loops m cfg \<le> rs_research_loop_count rs \<longrightarrow>
             evaluate_research rs m cfg = Finalize_Answer) \<and>
         loop_count (final_state (run_graph env cfg st0)) \<le>
           round_limit cfg \<and>
         ((\<forall>m p. \<exists>qs. env_invoke_queries env m p = Inr qs \<and> qs \<noteq> []) \<and>
          (\<forall>m p. \<exists>v. env_invoke_reflection env m p = Inr v \<and> \<not> v_is_sufficient v \<and>
                       v_follow_up_queries v \<noteq> []) \<and>
          (\<forall>m p. \<exists>t. env_invoke_text env m p = Inr t) \<and>
          messages st0 \<noteq> [] \<longrightarrow>
            (\<exists>f. outcome (run_graph env cfg st0) = Finalized f) \<and>
            research_loop_count (final_state (run_graph env cfg st0)) =
              Some (round_limit cfg))"
proof -
  have lt: "loop_count st0 < round_limit cfg"
    using fresh positive by (simp add: loop_count_def)
  have a: "\<forall>st rs. reflection env cfg st = Inr rs \<longrightarrow>
             rs_research_loop_count rs = loop_count st + 1"
    using reflection_count by blast
  have b: "\<forall>rs m. effective_max_loops m cfg \<le> rs_research_loop_count rs \<longrightarrow>
             evaluate_research rs m cfg = Finalize_Answer"
    using evaluate_research_budget by blast
  have c: "loop_count (final_state (run_graph env cfg st0)) \<le>
           round_limit cfg"
    by (rule run_graph_budget [OF lt])
  have d: "(\<exists>f. outcome (run_graph env cfg st0) = Finalized f) \<and>
            research_loop_count (final_state (run_graph env cfg st0)) =
              Some (round_limit cfg)"
    if h: "(\<forall>m p. \<exists>qs. env_invoke_queries env m p = Inr qs \<and> qs \<noteq> []) \<and>
          (\<forall>m p. \<exists>v. env_invoke_reflection env m p = Inr v \<and> \<not> v_is_sufficient v \<and>
                       v_follow_up_queries v \<noteq> []) \<and>
          (\<forall>m p. \<exists>t. env_invoke_text env m p = Inr t) \<and>
          messages st0 \<noteq> []"
  proof -
    have e: "(\<exists>f. outcome (run_graph env cfg st0) = Finalized f) \<and>
         loop_count (final_state (run_graph env cfg st0)) =
           round_limit cfg"
      using run_graph_exhausts_budget [of env st0 cfg] h lt by blast
    with positive show ?thesis
      by (cases "research_loop_count (final_state (run_graph env cfg st0))")
         (auto simp: loop_count_def)
  qed
  from a b c d show ?thesis by blast
qed

theorem configured_budget_respected_witness:
  "research_loop_count demo_input = None \<and>
   round_limit demo_cfg = 2 \<and>
   (\<exists>f. outcome (run_graph demo_env demo_cfg demo_input) = Finalized f) \<and>
   research_loop_count (final_state (run_graph demo_env demo_cfg demo_input)) = Some 2"
proof -
  have fresh: "research_loop_count demo_input = None"
    by (simp add: demo_input_def)
  have m: "round_limit demo_cfg = 2"
    by (simp add: round_limit_def effective_max_loops_def demo_cfg_def)
  have positive: "0 < round_limit demo_cfg"
    using m by simp
  have h: "(\<forall>m p. \<exists>qs. env_invoke_queries demo_env m p = Inr qs \<and> qs \<noteq> []) \<and>
          (\<forall>m p. \<exists>v. env_invoke_reflection demo_env m p = Inr v \<and> \<not> v_is_sufficient v \<and>
                       v_follow_up_queries v \<noteq> []) \<and>
          (\<forall>m p. \<exists>t. env_invoke_text demo_env m p = Inr t) \<and>
          messages demo_input \<noteq> []"
    by (simp add: demo_env_def demo_input_def)
  show ?thesis
    using configured_budget_respected [OF fresh positive, of demo_env] h fresh m by simp
qed

text \<open>
  Claim C1.  The claim fails on the code in two ways.  An insufficient verdict that
  carries no follow-up query makes \<^verbatim>\<open>evaluate_research\<close> return an empty list of
  \<^verbatim>\<open>Send\<close>s before the budget is used up: no node is scheduled, and the run ends after
  one round without ever reaching \<^verbatim>\<open>finalize_answer\<close>, where the claim has it finalize
  after exactly the maximum number of rounds.  And a maximum given in the input state,
  as \<^verbatim>\<open>examples/cli_research.py\<close> gives it, never reaches \<^verbatim>\<open>evaluate_research\<close>: with
  a maximum of 1 in the state and 2 in the configuration the run makes 2 rounds.
\<close>

theorem round_budget_stops_early:
  "round_limit demo_cfg = 2 \<and>
   outcome (run_graph no_follow_up_env demo_cfg demo_input) = Stopped \<and>
   research_loop_count (final_state (run_graph no_follow_up_env demo_cfg demo_input)) = Some 1 \<and>
   max_research_loops state_limit_input = Some 1 \<and>
   research_loop_count (final_state (run_graph demo_env demo_cfg state_limit_input)) = Some 2"
  by code_simp


subsection \<open>Dispatch indices\<close>

lemma map_upt_split:
  "map f [0..<k + n] = map f [0..<k] @ map (\<lambda>j. f (k + j)) [0..<n]"
proof -
  have "[k..<k + n] = map (\<lambda>j. k + j) [0..<n]"
    by (induction n) simp_all
  moreover have "[0..<k + n] = [0..<k] @ [k..<k + n]"
    by (rule upt_add_eq_append) simp
  ultimately show ?thesis
    by (simp add: comp_def)
qed

lemma continue_to_web_research_ids:
  "map ws_id (continue_to_web_research qs) = map int [0..<length qs]"
  by (rule nth_equalityI) (simp_all add: continue_to_web_research_def nth_enumerate_eq)

lemma evaluate_research_ids:
  assumes "evaluate_research rs m cfg = Send_Web_Research tasks"
  shows "map ws_id tasks =
           map (\<lambda>j. number_of_ran_queries rs + int j) [0..<length (follow_up_queries rs)]"
    and "length tasks = length (follow_up_queries rs)"
proof -
  have t: "tasks = map (\<lambda>(idx, follow_up_query).
                        \<lparr>ws_search_query = follow_up_query,
                         ws_id = number_of_ran_queries rs + int idx\<rparr>)
                   (List.enumerate 0 (follow_up_queries rs))"
    using assms by (auto simp: evaluate_research_def Let_def split: if_splits)
  show "length tasks = length (follow_up_queries rs)"
    using t by simp
  show "map ws_id tasks =
           map (\<lambda>j. number_of_ran_queries rs + int j) [0..<length (follow_up_queries rs)]"
    unfolding t by (rule nth_equalityI) (simp_all add: nth_enumerate_eq)
qed

lemma reflection_ran_queries:
  "reflection env cfg st = Inr rs \<Longrightarrow> number_of_ran_queries rs = int (length (search_query st))"
  by (auto simp: reflection_def Let_def split: sum.splits)

lemma round_step_done_ids:
  assumes "round_step env cfg st = Done r"
  shows "map ws_id (dispatched r) = batch_ids (length (search_query st)) (length (dispatched r))"
proof -
  consider "dispatched r = []"
    | rs tasks where "reflection env cfg st = Inr rs"
        "evaluate_research (routing_state (merge_reflection st rs) rs) None cfg =
           Send_Web_Research tasks" "dispatched r = tasks"
    using assms
    by (auto simp: round_step_def Let_def split: sum.splits route.splits if_splits)
  then show ?thesis
  proof cases
    case 1
    then show ?thesis by (simp add: batch_ids_def)
  next
    case 2
    then show ?thesis
      using evaluate_research_ids [OF 2(2)] reflection_ran_queries [OF 2(1)]
      by (simp add: batch_ids_def routing_state_fields)
  qed
qed

lemma round_step_next_ids:
  assumes "round_step env cfg st = Next_Round tasks st'"
  shows "map ws_id tasks = batch_ids (length (search_query st)) (length tasks)"
    and "length (search_query st') = length (search_query st) + length tasks"
proof -
  from assms obtain rs us where
      r: "reflection env cfg st = Inr rs"
    and e: "evaluate_research (routing_state (merge_reflection st rs) rs) None cfg =
            Send_Web_Research tasks"
    and u: "run_tasks env cfg tasks = Inr us"
    and s: "st' = fan_in (merge_reflection st rs) us"
    by (auto simp: round_step_def Let_def split: sum.splits route.splits if_splits)
  show "map ws_id tasks = batch_ids (length (search_query st)) (length tasks)"
    using evaluate_research_ids [OF e] reflection_ran_queries [OF r]
    by (simp add: batch_ids_def routing_state_fields)
  show "length (search_query st') = length (search_query st) + length tasks"
    using fan_in_counts_lemma [OF u, of "merge_reflection st rs"] s
    by (simp add: merge_reflection_fields)
qed

lemma batch_ids_append:
  "batch_ids start k @ batch_ids (start + k) n = batch_ids start (k + n)"
  by (simp add: batch_ids_def map_upt_split [of _ k n] add.assoc)

lemma research_rounds_ids:
  "map ws_id (dispatched (research_rounds env cfg st)) =
     batch_ids (length (search_query st)) (length (dispatched (research_rounds env cfg st)))"
proof (induction env cfg st rule: research_rounds.induct)
  case (1 env cfg st)
  show ?case
  proof (cases "round_step env cfg st")
    case (Done r)
    then have "research_rounds env cfg st = r"
      by (simp add: research_rounds.simps)
    then show ?thesis
      using round_step_done_ids [OF Done] by simp
  next
    case (Next_Round tasks st')
    have eq: "research_rounds env cfg st = add_batch tasks (research_rounds env cfg st')"
      using Next_Round by (simp add: research_rounds.simps)
    show ?thesis
      using "1.IH" [OF Next_Round] round_step_next_ids [OF Next_Round] eq
            batch_ids_append [of "length (search_query st)" "length tasks"
              "length (dispatched (research_rounds env cfg st'))"]
      by (simp add: add_batch_fields)
  qed
qed

lemma run_index_strict: "i < j \<Longrightarrow> run_index n i < run_index n j"
  by (simp add: run_index_def)

lemma sorted_run_index: "sorted_wrt (<) (map (run_index n) [0..<k])"
proof -
  have "sorted_wrt (\<lambda>i j. run_index n i < run_index n j) [0..<k]"
    by (rule sorted_wrt_mono_rel [of _ "(<)"]) (simp_all add: run_index_strict)
  then show ?thesis
    by (simp add: sorted_wrt_map)
qed

lemma run_index_initial: "map (run_index n) [0..<n] = map int [0..<n]"
  by (simp add: run_index_def)

lemma run_index_later: "map (\<lambda>j. run_index n (n + j)) [0..<k] = batch_ids (n + n) k"
  by (simp add: run_index_def batch_ids_def)

lemma run_graph_ids:
  assumes "generate_query env cfg st0 = Inr qs"
  shows "map ws_id (dispatched (run_graph env cfg st0)) =
           map (run_index (length (search_query st0) + length qs))
             [0..<length (dispatched (run_graph env cfg st0))]"
proof -
  let ?n = "length (search_query st0) + length qs"
  let ?st1 = "merge_queries st0 qs"
  let ?tasks = "continue_to_web_research (search_query ?st1)"
  have len: "length ?tasks = ?n"
    by (simp add: continue_to_web_research_length merge_queries_fields)
  have ids: "map ws_id ?tasks = map (run_index ?n) [0..<?n]"
    using continue_to_web_research_ids [of "search_query ?st1"]
    by (simp add: merge_queries_fields run_index_initial)
  consider (none) "run_graph env cfg st0 =
                     \<lparr>dispatched = [], final_state = ?st1, outcome = Stopped\<rparr>"
    | (failed) e where "run_graph env cfg st0 =
                     \<lparr>dispatched = ?tasks, final_state = ?st1, outcome = Failed e\<rparr>"
    | (rounds) us where "run_tasks env cfg ?tasks = Inr us"
        "run_graph env cfg st0 = add_batch ?tasks (research_rounds env cfg (fan_in ?st1 us))"
    using run_graph_cases [of env cfg st0] assms by (auto simp: Let_def)
  then show ?thesis
  proof cases
    case none
    then show ?thesis by simp
  next
    case failed
    then show ?thesis using ids len by simp
  next
    case rounds
    let ?rest = "dispatched (research_rounds env cfg (fan_in ?st1 us))"
    have l2: "length (search_query (fan_in ?st1 us)) = ?n + ?n"
      using fan_in_counts_lemma [OF rounds(1), of ?st1] len
      by (simp add: merge_queries_fields)
    have rest: "map ws_id ?rest = batch_ids (?n + ?n) (length ?rest)"
      using research_rounds_ids [of env cfg "fan_in ?st1 us"] l2 by simp
    have d: "dispatched (run_graph env cfg st0) = ?tasks @ ?rest"
      using rounds(2) by (simp add: add_batch_fields)
    have "map (run_index ?n) [0..<?n + length ?rest] =
            map (run_index ?n) [0..<?n] @ batch_ids (?n + ?n) (length ?rest)"
      using map_upt_split [of "run_index ?n" ?n "length ?rest"]
      by (simp add: run_index_later)
    then show ?thesis
      using d ids rest len by simp
  qed
qed

lemma run_graph_sorted:
  "sorted_wrt (<) (map ws_id (dispatched (run_graph env cfg st0)))"
proof (cases "generate_query env cfg st0")
  case (Inl e)
  then show ?thesis by (simp add: run_graph_def)
next
  case (Inr qs)
  show ?thesis
    using run_graph_ids [OF Inr] sorted_run_index by simp
qed

text \<open>
  What the code does keep of the dispatch indices.  The indices of the queries a run
  dispatches, read in dispatch order, strictly increase, so none is used twice.  The
  first batch gets 0, 1, ... in sequence.  A follow-up batch gets consecutive indices
  from \<^verbatim>\<open>number_of_ran_queries\<close>, which \<^verbatim>\<open>reflection\<close> sets to the length of the
  state's \<^verbatim>\<open>search_query\<close> list.  That list holds the planner's queries and one more
  entry per completed search task, so with \<open>n\<close> queries in the first batch the \<open>j\<close>-th
  dispatched query of a later batch has index \<open>n + j\<close>, not \<open>j\<close>.
\<close>

theorem dispatch_indices_strictly_increase:
  "sorted_wrt (<) (map ws_id (dispatched (run_graph env cfg st0))) \<and>
   distinct (map ws_id (dispatched (run_graph env cfg st0))) \<and>
   map ws_id (continue_to_web_research qs) = map int [0..<length qs] \<and>
   (reflection env cfg st = Inr rs \<and> evaluate_research rs m cfg = Send_Web_Research tasks \<longrightarrow>
      number_of_ran_queries rs = int (length (search_query st)) \<and>
      map ws_id tasks =
        map (\<lambda>j. number_of_ran_queries rs + int j) [0..<length (follow_up_queries rs)]) \<and>
   (generate_query env cfg st0 = Inr planned \<longrightarrow>
      map ws_id (dispatched (run_graph env cfg st0)) =
        map (run_index (length (search_query st0) + length planned))
          [0..<length (dispatched (run_graph env cfg st0))])"
proof -
  have s: "sorted_wrt (<) (map ws_id (dispatched (run_graph env cfg st0)))"
    by (rule run_graph_sorted)
  then have d: "distinct (map ws_id (dispatched (run_graph env cfg st0)))"
    by (simp add: strict_sorted_iff)
  show ?thesis
    using s d continue_to_web_research_ids [of qs] evaluate_research_ids(1) [of rs m cfg tasks]
      reflection_ran_queries [of env cfg st rs] run_graph_ids [of env cfg st0 planned]
    by blast
qed

theorem dispatch_indices_strictly_increase_witness:
  "generate_query demo_env demo_cfg demo_input = Inr [''q1'', ''q2''] \<and>
   reflection demo_env demo_cfg after_first_round = Inr first_verdict \<and>
   evaluate_research first_verdict None demo_cfg =
     Send_Web_Research [\<lparr>ws_search_query = ''f1'', ws_id = 4\<rparr>] \<and>
   map ws_id [\<lparr>ws_search_query = ''f1'', ws_id = 4\<rparr>] =
     map (\<lambda>j. number_of_ran_queries first_verdict + int j) [0..<length (follow_up_queries first_verdict)] \<and>
   map ws_id (dispatched (run_graph demo_env demo_cfg demo_input)) = [0, 1, 4] \<and>
   sorted_wrt (<) (map ws_id (dispatched (run_graph demo_env demo_cfg demo_input)))"
proof -
  have g: "generate_query demo_env demo_cfg demo_input = Inr [''q1'', ''q2'']"
    by code_simp
  have r: "reflection demo_env demo_cfg after_first_round = Inr first_verdict"
    by code_simp
  have e: "evaluate_research first_verdict None demo_cfg =
             Send_Web_Research [\<lparr>ws_search_query = ''f1'', ws_id = 4\<rparr>]"
    by code_simp
  have n: "length (dispatched (run_graph demo_env demo_cfg demo_input)) = 3"
    by code_simp
  have i: "map (run_index (length (search_query demo_input) + length [''q1'', ''q2''])) [0..<3] =
             [0, 1, 4]"
    by code_simp
  note t = dispatch_indices_strictly_increase [of demo_env demo_cfg demo_input "[''q1'', ''q2'']"
      after_first_round first_verdict None "[\<lparr>ws_search_query = ''f1'', ws_id = 4\<rparr>]"
      "[''q1'', ''q2'']"]
  from t g have ids: "map ws_id (dispatched (run_graph demo_env demo_cfg demo_input)) =
      map (run_index (length (search_query demo_input) + length [''q1'', ''q2'']))
        [0..<length (dispatched (run_graph demo_env demo_cfg demo_input))]"
    by blast
  have ids': "map ws_id (dispatched (run_graph demo_env demo_cfg demo_input)) = [0, 1, 4]"
    using ids unfolding n i .
  from t r e have f: "map ws_id [\<lparr>ws_search_query = ''f1'', ws_id = 4\<rparr>] =
      map (\<lambda>j. number_of_ran_queries first_verdict + int j)
        [0..<length (follow_up_queries first_verdict)]"
    by blast
  from t have s: "sorted_wrt (<) (map ws_id (dispatched (run_graph demo_env demo_cfg demo_input)))"
    by blast
  from g r e f ids' s show ?thesis
    by (intro conjI)
qed

text \<open>
  Claim C6.  The claim fails on the code where it says that a follow-up batch starts
  at the number of queries dispatched before it.  \<^verbatim>\<open>number_of_ran_queries\<close> is the
  length of \<^verbatim>\<open>search_query\<close>, and \<^verbatim>\<open>generate_query\<close> has put the planner's queries
  under that key before any of them ran, so the first batch is counted twice: in the
  sample run two queries are dispatched first, and the follow-up query gets index 4
  where the claim has 2.
\<close>

theorem dispatch_indices_double_count:
  "dispatched (run_graph demo_env demo_cfg demo_input) =
     [\<lparr>ws_search_query = ''q1'', ws_id = 0\<rparr>, \<lparr>ws_search_query = ''q2'', ws_id = 1\<rparr>,
      \<lparr>ws_search_query = ''f1'', ws_id = 4\<rparr>] \<and>
   ws_id \<lparr>ws_search_query = ''f1'', ws_id = 4\<rparr> \<noteq>
     int (length [\<lparr>ws_search_query = ''q1'', ws_id = 0\<rparr>, \<lparr>ws_search_query = ''q2'', ws_id = 1\<rparr>])"
  by code_simp

subsection \<open>Citation markers\<close>

lemma starts_with_Cons:
  "starts_with (x # p) s \<longleftrightarrow> (\<exists>t. s = x # t \<and> starts_with p t)"
  by (cases s) (auto simp: starts_with_def)

lemma starts_with_Nil [simp]: "starts_with [] s"
  by (simp add: starts_with_def)

lemma starts_with_append_self: "starts_with p (p @ t)"
  by (simp add: starts_with_def)

lemma starts_with_decompose: "starts_with p s \<Longrightarrow> s = p @ drop (length p) s"
  by (metis append_take_drop_id starts_with_def)

lemma replace_scan_unchanged:
  "\<not> contains_str pat s \<Longrightarrow> replace_scan pat rep s = s"
  by (induction s) simp_all

lemma replace_scan_at_match:
  "pat \<noteq> [] \<Longrightarrow> replace_scan pat rep (pat @ t) = rep @ replace_scan pat rep t"
  by (cases pat) (simp_all add: starts_with_def)

text \<open>A replacement that holds no occurrence of the pattern and ends in a character
  foreign to the pattern is copied by the scan.\<close>

lemma replace_scan_skips:
  assumes "pat \<noteq> []" and "last a \<notin> set pat" and "\<not> contains_str pat a" and "a \<noteq> []"
  shows "replace_scan pat rep (a @ t) = a @ replace_scan pat rep t"
  using assms(2-4)
proof (induction a)
  case Nil
  then show ?case by simp
next
  case (Cons x a)
  have no: "\<not> starts_with pat (x # a @ t)"
  proof
    assume s: "starts_with pat (x # a @ t)"
    show False
    proof (cases "length pat \<le> length (x # a)")
      case True
      have "take (length pat) ((x # a) @ t) =
            take (length pat) (x # a) @ take (length pat - length (x # a)) t"
        by (rule take_append)
      then have "take (length pat) ((x # a) @ t) = take (length pat) (x # a)"
        using True by simp
      then have "take (length pat) (x # a) = pat"
        using s by (simp add: starts_with_def)
      then have "starts_with pat (x # a)"
        by (simp add: starts_with_def)
      then show False using Cons.prems(2) by simp
    next
      case False
      have "pat = take (length pat) ((x # a) @ t)"
        using s by (simp add: starts_with_def)
      then have "take (length (x # a)) pat =
                 take (length (x # a)) (take (length pat) ((x # a) @ t))"
        by simp
      also have "\<dots> = take (min (length (x # a)) (length pat)) ((x # a) @ t)"
        by (rule take_take)
      also have "\<dots> = take (length (x # a)) ((x # a) @ t)"
        using False by (simp add: min_def)
      also have "\<dots> = x # a"
        by simp
      finally have "set (x # a) \<subseteq> set pat"
        by (metis set_take_subset)
      then show False using Cons.prems(1) by (metis last_in_set list.discI subsetD)
    qed
  qed
  show ?case
  proof (cases "a = []")
    case True
    then show ?thesis using no by simp
  next
    case False
    then have "replace_scan pat rep (a @ t) = a @ replace_scan pat rep t"
      using Cons by simp
    then show ?thesis using no by simp
  qed
qed

declare substitute_all.simps [simp del]

lemma find_marker_None_iff:
  "find_marker ms s = None \<longleftrightarrow> (\<forall>(pat, rep) \<in> set ms. pat = [] \<or> \<not> starts_with pat s)"
proof (induction ms)
  case Nil
  then show ?case by simp
next
  case (Cons m ms)
  obtain pat rep where "m = (pat, rep)" by (cases m)
  with Cons show ?case by auto
qed

lemma find_marker_append_Some:
  "find_marker ms s = Some x \<Longrightarrow> find_marker (ms @ ms') s = Some x"
  by (induction ms) (auto split: if_splits)

lemma find_marker_append_None:
  "find_marker ms s = None \<Longrightarrow> find_marker (ms @ ms') s = find_marker ms' s"
  by (induction ms) (auto split: if_splits)

lemma substitute_all_None:
  "find_marker ms (c # cs) = None \<Longrightarrow> substitute_all ms (c # cs) = c # substitute_all ms cs"
  by (simp add: substitute_all.simps)

lemma substitute_all_Some:
  "find_marker ms (c # cs) = Some (pat, rep) \<Longrightarrow>
     substitute_all ms (c # cs) = rep @ substitute_all ms (drop (length pat) (c # cs))"
  by (simp add: substitute_all.simps)

lemma substitute_all_Nil [simp]: "substitute_all ms [] = []"
  by (simp add: substitute_all.simps)

lemma find_marker_other_char:
  assumes "patterns_start b ms" and "x \<noteq> b"
  shows "find_marker ms (x # cs) = None"
proof -
  have "\<not> starts_with pat (x # cs)" if "(pat, rep) \<in> set ms" for pat rep
  proof -
    from that assms(1) have "pat \<noteq> []" "hd pat = b"
      by (auto simp: patterns_start_def)
    then show ?thesis
      using assms(2) by (cases pat) (auto simp: starts_with_Cons)
  qed
  then show ?thesis
    by (auto simp: find_marker_None_iff)
qed

lemma substitute_all_plain:
  assumes "patterns_start b ms" and "b \<notin> set w"
  shows "substitute_all ms (w @ t) = w @ substitute_all ms t"
  using assms(2)
proof (induction w)
  case Nil
  then show ?case by simp
next
  case (Cons x w)
  then have "find_marker ms (x # w @ t) = None"
    using find_marker_other_char [OF assms(1), of x "w @ t"] by auto
  then show ?case
    using Cons by (simp add: substitute_all_None)
qed

lemma substitute_all_reflects_prefix:
  assumes "replacements_start b ms" and "b \<notin> set w"
  shows "starts_with w (substitute_all ms s) \<Longrightarrow> starts_with w s"
  using assms(2)
proof (induction w arbitrary: s)
  case Nil
  then show ?case by simp
next
  case (Cons x w)
  from Cons.prems(1) obtain u where u: "substitute_all ms s = x # u" and w: "starts_with w u"
    by (auto simp: starts_with_Cons)
  from u obtain c cs where s: "s = c # cs"
    by (cases s) simp_all
  have xb: "x \<noteq> b" using Cons.prems(2) by auto
  show ?case
  proof (cases "find_marker ms (c # cs)")
    case None
    then have "substitute_all ms s = c # substitute_all ms cs"
      using s by (simp add: substitute_all_None)
    with u have "c = x" "u = substitute_all ms cs" by simp_all
    with w Cons.IH [of cs] Cons.prems(2) have "starts_with w cs" by simp
    with \<open>c = x\<close> s show ?thesis by (simp add: starts_with_Cons)
  next
    case (Some pr)
    obtain pat rep where pr: "pr = (pat, rep)" by (cases pr)
    have "(pat, rep) \<in> set ms"
      using find_marker_Some [of ms "c # cs" pat rep] Some pr by simp
    then have "rep \<noteq> []" "hd rep = b"
      using assms(1) by (auto simp: replacements_start_def)
    moreover have "substitute_all ms s = rep @ substitute_all ms (drop (length pat) (c # cs))"
      using Some pr s by (simp add: substitute_all_Some)
    ultimately have "hd (substitute_all ms s) = b"
      by (cases rep) simp_all
    with u xb show ?thesis by simp
  qed
qed

lemma replace_after_substitute:
  assumes pat: "pat \<noteq> []" "hd pat = b" "b \<notin> set (tl pat)"
    and ps: "patterns_start b ms" and rs: "replacements_start b ms"
    and clean: "\<forall>(pat', rep') \<in> set ms. last rep' \<notin> set pat \<and> \<not> contains_str pat rep'"
  shows "replace_scan pat rep (substitute_all ms s) = substitute_all (ms @ [(pat, rep)]) s"
proof (induction s rule: length_induct)
  case (1 s)
  let ?ms' = "ms @ [(pat, rep)]"
  have IH: "replace_scan pat rep (substitute_all ms t) = substitute_all ?ms' t"
    if "length t < length s" for t
    using 1 that by blast
  show ?case
  proof (cases s)
    case Nil
    then show ?thesis by simp
  next
    case (Cons c cs)
    show ?thesis
    proof (cases "find_marker ms (c # cs)")
      case (Some pr)
      obtain pat' rep' where pr: "pr = (pat', rep')" by (cases pr)
      have f: "find_marker ms (c # cs) = Some (pat', rep')"
        using Some pr by simp
      have mem: "(pat', rep') \<in> set ms" and ne: "pat' \<noteq> []"
        using find_marker_Some [OF f] by simp_all
      have r: "rep' \<noteq> []" "last rep' \<notin> set pat" "\<not> contains_str pat rep'"
        using mem rs clean by (auto simp: replacements_start_def)
      let ?t = "drop (length pat') (c # cs)"
      have shorter: "length ?t < length s"
        using ne Cons by (cases pat') simp_all
      have "replace_scan pat rep (substitute_all ms s) =
              replace_scan pat rep (rep' @ substitute_all ms ?t)"
        using f Cons by (simp add: substitute_all_Some)
      also have "\<dots> = rep' @ replace_scan pat rep (substitute_all ms ?t)"
        by (rule replace_scan_skips [OF pat(1) r(2) r(3) r(1)])
      also have "\<dots> = rep' @ substitute_all ?ms' ?t"
        using IH [OF shorter] by simp
      also have "\<dots> = substitute_all ?ms' s"
        using find_marker_append_Some [OF f, of "[(pat, rep)]"] Cons
        by (simp add: substitute_all_Some)
      finally show ?thesis .
    next
      case None
      have sub: "substitute_all ms s = c # substitute_all ms cs"
        using None Cons by (simp add: substitute_all_None)
      have fm: "find_marker ?ms' (c # cs) =
                  (if starts_with pat (c # cs) then Some (pat, rep) else None)"
        using find_marker_append_None [OF None, of "[(pat, rep)]"] pat(1) by simp
      show ?thesis
      proof (cases "starts_with pat (c # cs)")
        case True
        let ?t = "drop (length pat) (c # cs)"
        have dec: "c # cs = pat @ ?t"
          using starts_with_decompose [OF True] .
        have shorter: "length ?t < length s"
          using pat(1) Cons by (cases pat) simp_all
        obtain p where p: "pat = b # p"
          using pat(1,2) by (cases pat) simp_all
        have cb: "c = b" and cs: "cs = p @ ?t"
          using dec p by simp_all
        have "substitute_all ms cs = p @ substitute_all ms ?t"
          using substitute_all_plain [OF ps, of p ?t] pat(3) p cs by simp
        then have "substitute_all ms s = pat @ substitute_all ms ?t"
          using sub cb p by simp
        then have "replace_scan pat rep (substitute_all ms s) =
                     rep @ replace_scan pat rep (substitute_all ms ?t)"
          using replace_scan_at_match [OF pat(1)] by simp
        also have "\<dots> = rep @ substitute_all ?ms' ?t"
          using IH [OF shorter] by simp
        also have "\<dots> = substitute_all ?ms' s"
          using fm True Cons by (simp add: substitute_all_Some)
        finally show ?thesis .
      next
        case False
        have no: "\<not> starts_with pat (c # substitute_all ms cs)"
        proof
          assume a: "starts_with pat (c # substitute_all ms cs)"
          obtain p where p: "pat = b # p"
            using pat(1,2) by (cases pat) simp_all
          from a p have "c = b" and "starts_with p (substitute_all ms cs)"
            by (simp_all add: starts_with_Cons)
          moreover have "b \<notin> set p" using pat(3) p by simp
          ultimately have "starts_with p cs"
            using substitute_all_reflects_prefix [OF rs, of p cs] by simp
          with \<open>c = b\<close> p have "starts_with pat (c # cs)"
            by (simp add: starts_with_Cons)
          with False show False by simp
        qed
        have shorter: "length cs < length s" using Cons by simp
        have "replace_scan pat rep (substitute_all ms s) =
                c # replace_scan pat rep (substitute_all ms cs)"
          using sub no by simp
        also have "\<dots> = c # substitute_all ?ms' cs"
          using IH [OF shorter] by simp
        also have "\<dots> = substitute_all ?ms' s"
          using fm False Cons by (simp add: substitute_all_None)
        finally show ?thesis .
      qed
    qed
  qed
qed

lemma table_step_replace_scan:
  "pat \<noteq> [] \<Longrightarrow> table_step t (pat, rep) = replace_scan pat rep t"
  by (simp add: table_step_def str_replace_def replace_scan_unchanged)

lemma citation_step_table:
  "citation_step t (i, s) = table_step t (marker_pattern i, link_replacement i s)"
  by (simp add: citation_step_def table_step_def)

lemma insert_citation_markers_fold:
  "insert_citation_markers text sources = foldl table_step text (citation_table sources)"
proof -
  have "foldl citation_step t xs =
          foldl table_step t (map (\<lambda>(i, s). (marker_pattern i, link_replacement i s)) xs)"
    for t xs
    by (induction xs arbitrary: t) (auto simp: citation_step_table)
  then show ?thesis
    by (simp add: insert_citation_markers_def citation_table_def)
qed

lemma substitute_all_empty_table: "substitute_all [] s = s"
  by (induction s) (simp_all add: substitute_all_None)

lemma marker_table_entry:
  "marker_table b ms \<Longrightarrow> (pat, rep) \<in> set ms \<Longrightarrow>
     pat \<noteq> [] \<and> hd pat = b \<and> b \<notin> set (tl pat) \<and> rep \<noteq> [] \<and> hd rep = b"
  unfolding marker_table_def by blast

lemma marker_table_last:
  "marker_table b ms \<Longrightarrow> (pat, rep) \<in> set ms \<Longrightarrow> (pat', rep') \<in> set ms \<Longrightarrow>
     last rep \<notin> set pat'"
  unfolding marker_table_def by blast

lemma marker_table_starts:
  assumes "marker_table b (pre @ ms)"
  shows "patterns_start b pre" and "replacements_start b pre"
proof -
  have "pat \<noteq> [] \<and> hd pat = b \<and> rep \<noteq> [] \<and> hd rep = b" if "(pat, rep) \<in> set pre" for pat rep
    using marker_table_entry [OF assms, of pat rep] that by simp
  then show "patterns_start b pre" and "replacements_start b pre"
    unfolding patterns_start_def replacements_start_def by blast+
qed

lemma foldl_table_step:
  assumes "marker_table b (pre @ ms)"
    and "sorted_wrt (\<lambda>(pat, rep) (pat', rep'). \<not> contains_str pat' rep) (pre @ ms)"
  shows "foldl table_step (substitute_all pre body) ms = substitute_all (pre @ ms) body"
  using assms
proof (induction ms arbitrary: pre)
  case Nil
  then show ?case by simp
next
  case (Cons m ms)
  obtain pat rep where m: "m = (pat, rep)" by (cases m)
  have mt: "marker_table b ((pre @ [(pat, rep)]) @ ms)"
    and so: "sorted_wrt (\<lambda>(pat, rep) (pat', rep'). \<not> contains_str pat' rep)
               ((pre @ [(pat, rep)]) @ ms)"
    using Cons.prems m by simp_all
  have mem: "(pat, rep) \<in> set (pre @ m # ms)" using m by simp
  have p: "pat \<noteq> []" "hd pat = b" "b \<notin> set (tl pat)"
    using marker_table_entry [OF Cons.prems(1) mem] by simp_all
  note pre = marker_table_starts [OF Cons.prems(1)]
  have c1: "last rep' \<notin> set pat" if "(pat', rep') \<in> set pre" for pat' rep'
    using marker_table_last [OF Cons.prems(1) _ mem, of pat' rep'] that by simp
  have c2: "\<not> contains_str pat rep'" if inpre: "(pat', rep') \<in> set pre" for pat' rep'
  proof -
    have "\<forall>x \<in> set pre. \<forall>y \<in> set (m # ms).
            (case x of (pat, rep) \<Rightarrow> \<lambda>(pat', rep'). \<not> contains_str pat' rep) y"
      using Cons.prems(2) by (simp only: sorted_wrt_append) blast
    from this [rule_format, OF inpre, of m] show ?thesis
      using m by simp
  qed
  have clean: "\<forall>(pat', rep') \<in> set pre. last rep' \<notin> set pat \<and> \<not> contains_str pat rep'"
    using c1 c2 by blast
  have "table_step (substitute_all pre body) m = substitute_all (pre @ [(pat, rep)]) body"
    using replace_after_substitute [OF p pre clean, of rep body] m
    by (simp add: table_step_replace_scan [OF p(1)])
  then show ?case
    using Cons.IH [OF mt so] m by simp
qed

lemma digit_char_range: "digit_char d \<in> set ''0123456789''"
  unfolding digit_char_def by (rule nth_mem) simp

lemma str_nat_digits: "set (str_nat n) \<subseteq> set ''0123456789''"
proof (induction n rule: str_nat.induct)
  case (1 n)
  show ?case
  proof (cases "n < 10")
    case True
    then show ?thesis
      using digit_char_range [of n] by (subst str_nat.simps) simp
  next
    case False
    then show ?thesis
      using 1 digit_char_range [of n] by (subst str_nat.simps) simp
  qed
qed

lemma str_nat_no_bracket:
  "CHR ''['' \<notin> set (str_nat n)" "CHR '')'' \<notin> set (str_nat n)"
proof -
  have "CHR ''['' \<notin> set ''0123456789''" "CHR '')'' \<notin> set ''0123456789''"
    by simp_all
  then show "CHR ''['' \<notin> set (str_nat n)" "CHR '')'' \<notin> set (str_nat n)"
    using str_nat_digits [of n] by blast+
qed

lemma marker_pattern_shape:
  "marker_pattern i \<noteq> []" "hd (marker_pattern i) = CHR ''[''"
  "CHR ''['' \<notin> set (tl (marker_pattern i))" "CHR '')'' \<notin> set (marker_pattern i)"
  using str_nat_no_bracket [of i] by (simp_all add: marker_pattern_def)

lemma link_replacement_shape:
  "link_replacement i s \<noteq> []" "hd (link_replacement i s) = CHR ''[''"
  "last (link_replacement i s) = CHR '')''"
  by (simp_all add: link_replacement_def)

lemma citation_table_entries:
  "(pat, rep) \<in> set (citation_table sources) \<Longrightarrow>
     \<exists>i s. pat = marker_pattern i \<and> rep = link_replacement i s"
  by (auto simp: citation_table_def)

lemma citation_table_marker_table: "marker_table (CHR ''['') (citation_table sources)"
proof -
  have e: "pat \<noteq> [] \<and> hd pat = CHR ''['' \<and> CHR ''['' \<notin> set (tl pat) \<and>
           rep \<noteq> [] \<and> hd rep = CHR ''[''"
    if m: "(pat, rep) \<in> set (citation_table sources)" for pat rep
  proof -
    obtain i s where "pat = marker_pattern i" "rep = link_replacement i s"
      using citation_table_entries [OF m] by blast
    then show ?thesis
      using marker_pattern_shape [of i] link_replacement_shape [of i s] by simp
  qed
  have l: "last rep \<notin> set pat'"
    if m1: "(pat, rep) \<in> set (citation_table sources)"
      and m2: "(pat', rep') \<in> set (citation_table sources)"
    for pat rep pat' rep'
  proof -
    obtain i s where "rep = link_replacement i s"
      using citation_table_entries [OF m1] by blast
    moreover obtain j and s' :: source where "pat' = marker_pattern j"
      using citation_table_entries [OF m2] by blast
    ultimately show ?thesis
      using marker_pattern_shape(4) [of j] link_replacement_shape(3) [of i s] by simp
  qed
  show ?thesis
    unfolding marker_table_def using e l by blast
qed



text \<open>
  Where no link holds the marker of a later source, \<^verbatim>\<open>insert_citation_markers\<close> is
  the one-pass substitution of the spec: every marker with a source is replaced by its
  link, and all other text, markers without a source included, is kept.
\<close>

theorem insert_citation_markers_simultaneous:
  assumes "no_cascade sources"
  shows "insert_citation_markers text sources = substitute_all (citation_table sources) text"
proof -
  have "foldl table_step (substitute_all [] text) (citation_table sources) =
          substitute_all ([] @ citation_table sources) text"
    using assms citation_table_marker_table [of sources]
    by (intro foldl_table_step [of "CHR ''[''"]) (simp_all add: no_cascade_def)
  then show ?thesis
    by (simp add: insert_citation_markers_fold substitute_all_empty_table)
qed

theorem insert_citation_markers_simultaneous_witness:
  "no_cascade cited_sources \<and>
   insert_citation_markers ''See [1] and [2]. [3]'' cited_sources =
     ''See [X](u1) and [Y](u2). [3]''"
proof -
  have n: "no_cascade cited_sources"
    by code_simp
  have s: "substitute_all (citation_table cited_sources) ''See [1] and [2]. [3]'' =
             ''See [X](u1) and [Y](u2). [3]''"
    by code_simp
  show ?thesis
    using n s insert_citation_markers_simultaneous [OF n, of "''See [1] and [2]. [3]''"]
    by simp
qed

text \<open>
  Claim C5.  The claim holds on its own examples, but not for every source list:
  \<^verbatim>\<open>insert_citation_markers\<close> replaces one marker after the other in the whole text, so
  a link it has just written is rewritten when the title or URL in it holds the marker
  of a later source.  With the text \<^verbatim>\<open>See [1].\<close> and a first source titled
  \<^verbatim>\<open>Python [2] tutorial\<close> the marker becomes a link to the first source whose title
  has been overwritten with a link to the second.
\<close>

theorem insert_citation_markers_cascade:
  "insert_citation_markers ''See [1].'' cascading_sources =
     ''See [Python [Y](u2) tutorial](u1).'' \<and>
   insert_citation_markers ''See [1].'' cascading_sources \<noteq>
     ''See [Python [2] tutorial](u1).'' \<and>
   insert_citation_markers ''See [1] and [2].'' cited_sources = ''See [X](u1) and [Y](u2).'' \<and>
   insert_citation_markers ''[3]'' cited_sources = ''[3]''"
  by code_simp

end
